theory Spec2Isabelle
  imports Complex_Main
begin

section \<open>The multigraph the network is stored in\<close>

text \<open>
  \<^verbatim>\<open>SocialNetwork.py\<close> keeps its people and connections in a \<^verbatim>\<open>networkx.MultiGraph\<close>.
  The part of that class the program calls is embedded here after the library's documented
  behaviour: nodes are the keys of an insertion-ordered dictionary, an edge may be added any
  number of times, an edge from a node to itself is stored like any other edge, and adding
  an edge adds its two end points as nodes when they are not nodes yet.
\<close>

record 'a multigraph =
  nodes :: "'a list"
  edges :: "('a \<times> 'a) list"

definition MultiGraph :: "'a multigraph" where
  "MultiGraph = \<lparr>nodes = [], edges = []\<rparr>"

text \<open>Insertion of a key into an insertion-ordered dictionary's key list.\<close>

definition add_key :: "'a \<Rightarrow> 'a list \<Rightarrow> 'a list" where
  "add_key k ks = (if k \<in> set ks then ks else ks @ [k])"

definition add_node :: "'a multigraph \<Rightarrow> 'a \<Rightarrow> 'a multigraph" where
  "add_node g n = g\<lparr>nodes := add_key n (nodes g)\<rparr>"

definition add_nodes_from :: "'a multigraph \<Rightarrow> 'a list \<Rightarrow> 'a multigraph" where
  "add_nodes_from g ns = foldl add_node g ns"

definition add_edge :: "'a multigraph \<Rightarrow> 'a \<times> 'a \<Rightarrow> 'a multigraph" where
  "add_edge g e =
     (let g' = add_node (add_node g (fst e)) (snd e)
      in g'\<lparr>edges := edges g' @ [e]\<rparr>)"

definition add_edges_from :: "'a multigraph \<Rightarrow> ('a \<times> 'a) list \<Rightarrow> 'a multigraph" where
  "add_edges_from g es = foldl add_edge g es"

text \<open>
  The degree of a node counts the edge ends at it: an edge from the node to itself counts
  twice. \<^verbatim>\<open>graph.degree\<close> iterates over the nodes in insertion order and yields each with
  its degree.
\<close>

definition degree :: "'a multigraph \<Rightarrow> 'a \<Rightarrow> nat" where
  "degree g n =
     length (filter (\<lambda>e. fst e = n) (edges g)) + length (filter (\<lambda>e. snd e = n) (edges g))"

definition degree_view :: "'a multigraph \<Rightarrow> ('a \<times> nat) list" where
  "degree_view g = map (\<lambda>n. (n, degree g n)) (nodes g)"

text \<open>The keys of the adjacency dictionary of a node, in insertion order.\<close>

fun adj_keys :: "('a \<times> 'a) list \<Rightarrow> 'a \<Rightarrow> 'a list \<Rightarrow> 'a list" where
  "adj_keys [] v ks = ks"
| "adj_keys (e # es) v ks =
     (if fst e = v then adj_keys es v (add_key (snd e) ks)
      else if snd e = v then adj_keys es v (add_key (fst e) ks)
      else adj_keys es v ks)"

definition neighbors :: "'a multigraph \<Rightarrow> 'a \<Rightarrow> 'a list" where
  "neighbors g v = adj_keys (edges g) v []"

definition has_selfloop :: "'a multigraph \<Rightarrow> bool" where
  "has_selfloop g = (\<exists>e \<in> set (edges g). fst e = snd e)"

section \<open>The network object and its construction\<close>

text \<open>
  A Python list holds references to objects. \<^verbatim>\<open>i is j\<close> asks whether two references are
  the same object, while networkx hashes and compares the values: two strings of the same
  text are one node, whether or not they are one object. An object is therefore modelled by
  its address together with its value; \<^verbatim>\<open>is\<close> compares the addresses, and the graph is
  given the values.
\<close>

type_synonym 'a obj = "nat \<times> 'a"

record 'a social_network =
  people :: "'a obj list"
  connections :: "('a \<times> 'a) list"
  graph :: "'a multigraph"

text \<open>
  The two generators append to \<^verbatim>\<open>self.connections\<close>. A connection is kept as the pair of
  the values of its two people: nothing reads the identity of an object once it is in a
  connection. \<^verbatim>\<open>random.randint(0, 1)\<close> reads a hidden global generator: the model passes
  the sequence of numbers it returns (\<open>src\<close>) and the position reached in it.
\<close>

fun full_inner :: "'a obj \<Rightarrow> 'a obj list \<Rightarrow> ('a \<times> 'a) list \<Rightarrow> ('a \<times> 'a) list" where
  "full_inner i [] conns = conns"
| "full_inner i (j # js) conns =
     (if fst i = fst j then full_inner i js conns
      else full_inner i js (conns @ [(snd i, snd j)]))"

fun full_outer :: "'a obj list \<Rightarrow> 'a obj list \<Rightarrow> ('a \<times> 'a) list \<Rightarrow> ('a \<times> 'a) list" where
  "full_outer [] ps conns = conns"
| "full_outer (i # is) ps conns = full_outer is ps (full_inner i ps conns)"

definition create_connections_full :: "'a social_network \<Rightarrow> 'a social_network" where
  "create_connections_full self =
     self\<lparr>connections := full_outer (people self) (people self) (connections self)\<rparr>"

fun random_inner ::
  "'a obj \<Rightarrow> 'a obj list \<Rightarrow> (nat \<Rightarrow> nat) \<Rightarrow> nat \<Rightarrow> ('a \<times> 'a) list
     \<Rightarrow> ('a \<times> 'a) list \<times> nat" where
  "random_inner i [] src k conns = (conns, k)"
| "random_inner i (j # js) src k conns =
     (if fst i = fst j then random_inner i js src k conns
      else if src k = 0 then random_inner i js src (Suc k) conns
      else (conns @ [(snd i, snd j)], Suc k))"

fun random_outer ::
  "'a obj list \<Rightarrow> 'a obj list \<Rightarrow> (nat \<Rightarrow> nat) \<Rightarrow> nat \<Rightarrow> ('a \<times> 'a) list
     \<Rightarrow> ('a \<times> 'a) list \<times> nat" where
  "random_outer [] ps src k conns = (conns, k)"
| "random_outer (i # is) ps src k conns =
     (case random_inner i ps src k conns of (conns', k') \<Rightarrow> random_outer is ps src k' conns')"

definition create_connections_random ::
  "'a social_network \<Rightarrow> (nat \<Rightarrow> nat) \<Rightarrow> nat \<Rightarrow> 'a social_network \<times> nat" where
  "create_connections_random self src k =
     (case random_outer (people self) (people self) src k (connections self) of
        (conns, k') \<Rightarrow> (self\<lparr>connections := conns\<rparr>, k'))"

definition populate_graph :: "'a social_network \<Rightarrow> 'a social_network" where
  "populate_graph self =
     self\<lparr>graph := add_edges_from (add_nodes_from (graph self) (map snd (people self)))
                      (connections self)\<rparr>"

definition init ::
  "'a obj list \<Rightarrow> ('a \<times> 'a) list option \<Rightarrow> string option \<Rightarrow> (nat \<Rightarrow> nat) \<Rightarrow> nat
     \<Rightarrow> 'a social_network \<times> nat" where
  "init ppl conns gov src k =
     (let self = \<lparr>people = ppl, connections = [], graph = MultiGraph\<rparr>;
          made = (case conns of
                    None \<Rightarrow>
                      (if gov = None then create_connections_random self src k
                       else if gov = Some ''random'' then create_connections_random self src k
                       else if gov = Some ''full'' then (create_connections_full self, k)
                       else (self, k))
                  | Some cs \<Rightarrow> (self\<lparr>connections := cs\<rparr>, k))
      in (populate_graph (fst made), snd made))"

section \<open>Popularity queries\<close>

text \<open>
  The exceptions of the queries. \<^verbatim>\<open>TypeError\<close> and \<^verbatim>\<open>ZeroDivisionError\<close> are the two the
  program can raise; \<^verbatim>\<open>EmptyGraphError\<close> is the error kind the specification names, which
  the program neither defines nor raises.
\<close>

datatype py_error = TypeError | ZeroDivisionError | EmptyGraphError

text \<open>
  The first loop of \<^verbatim>\<open>get_most_popular\<close> keeps, in \<^verbatim>\<open>person\<close>, the first pair of the
  degree view whose degree is the highest; \<^verbatim>\<open>person\<close> is still \<^verbatim>\<open>None\<close> after it when
  the graph has no node, and \<^verbatim>\<open>person[0]\<close> then raises \<^verbatim>\<open>TypeError\<close>.
\<close>

fun most_scan :: "('a \<times> nat) option \<Rightarrow> ('a \<times> nat) list \<Rightarrow> ('a \<times> nat) option" where
  "most_scan person [] = person"
| "most_scan person (i # is) =
     (case person of
        None \<Rightarrow> most_scan (Some i) is
      | Some p \<Rightarrow> if snd i > snd p then most_scan (Some i) is else most_scan person is)"

fun least_scan :: "('a \<times> nat) option \<Rightarrow> ('a \<times> nat) list \<Rightarrow> ('a \<times> nat) option" where
  "least_scan person [] = person"
| "least_scan person (i # is) =
     (case person of
        None \<Rightarrow> least_scan (Some i) is
      | Some p \<Rightarrow> if snd i < snd p then least_scan (Some i) is else least_scan person is)"

fun equally_popular :: "'a \<times> nat \<Rightarrow> ('a \<times> nat) list \<Rightarrow> 'a set \<Rightarrow> 'a set" where
  "equally_popular person [] populars = populars"
| "equally_popular person (i # is) populars =
     (if snd i = snd person then equally_popular person is (insert (fst i) populars)
      else equally_popular person is populars)"

definition get_most_popular :: "'a social_network \<Rightarrow> py_error + 'a set" where
  "get_most_popular self =
     (case most_scan None (degree_view (graph self)) of
        None \<Rightarrow> Inl TypeError
      | Some person \<Rightarrow> Inr (equally_popular person (degree_view (graph self)) {fst person}))"

definition get_least_popular :: "'a social_network \<Rightarrow> py_error + 'a set" where
  "get_least_popular self =
     (case least_scan None (degree_view (graph self)) of
        None \<Rightarrow> Inl TypeError
      | Some person \<Rightarrow> Inr (equally_popular person (degree_view (graph self)) {fst person}))"

text \<open>
  \<^verbatim>\<open>get_more_than_four\<close> returns either the set of people or, when that set is empty,
  a sentence.
\<close>

datatype 'a set_or_str = PySet "'a set" | PyStr string

fun more_than_four_loop :: "('a \<times> nat) list \<Rightarrow> 'a set \<Rightarrow> 'a set" where
  "more_than_four_loop [] populars = populars"
| "more_than_four_loop (i # is) populars =
     (if snd i > 4 then more_than_four_loop is (insert (fst i) populars)
      else more_than_four_loop is populars)"

definition get_more_than_four :: "'a social_network \<Rightarrow> 'a set_or_str" where
  "get_more_than_four self =
     (let populars = more_than_four_loop (degree_view (graph self)) {}
      in if card populars = 0 then PyStr ''No one has more than four friends''
         else PySet populars)"

section \<open>Average connectivity\<close>

text \<open>
  \<^verbatim>\<open>summation/count\<close> is Python's true division of two integers: it raises
  \<^verbatim>\<open>ZeroDivisionError\<close> when the divisor is zero and otherwise returns the double nearest to
  the quotient, ties going to the even significand. A double is modelled by the rational
  number it stands for, with a significand of 53 bits; the exponent is not bounded (the
  quotients of this program leave the range of a double only on graphs of more than
  \<open>2 ^ 1022\<close> nodes or edge ends). The sum and the count are natural numbers here.
\<close>

fun bit_length :: "nat \<Rightarrow> nat" where
  "bit_length n = (if n = 0 then 0 else Suc (bit_length (n div 2)))"

declare bit_length.simps [simp del]

definition round_half_even :: "rat \<Rightarrow> int" where
  "round_half_even x =
     (let f = \<lfloor>x\<rfloor>; r = x - of_int f
      in if r < 1 / 2 then f else if 1 / 2 < r then f + 1 else if even f then f else f + 1)"

text \<open>The exponent \<open>e\<close> with \<open>2 ^ e \<le> a / b < 2 ^ (e + 1)\<close>, for positive \<open>a\<close> and \<open>b\<close>.\<close>

definition quotient_exponent :: "nat \<Rightarrow> nat \<Rightarrow> int" where
  "quotient_exponent a b =
     (let d = int (bit_length a) - int (bit_length b)
      in if (2::rat) powi d \<le> of_nat a / of_nat b then d else d - 1)"

definition nearest_double :: "nat \<Rightarrow> nat \<Rightarrow> rat" where
  "nearest_double a b =
     (if a = 0 then 0
      else let ulp = (2::rat) powi (quotient_exponent a b - 52)
           in of_int (round_half_even (of_nat a / of_nat b / ulp)) * ulp)"

definition truediv :: "nat \<Rightarrow> nat \<Rightarrow> py_error + rat" where
  "truediv a b = (if b = 0 then Inl ZeroDivisionError else Inr (nearest_double a b))"

text \<open>
  \<^verbatim>\<open>get_average\<close> returns an integer under the governors \<^verbatim>\<open>"floor"\<close>, \<^verbatim>\<open>"ceiling"\<close> and
  \<^verbatim>\<open>"cast"\<close>, and the double itself otherwise.
\<close>

datatype number = PyInt int | PyFloat rat

fun number_value :: "number \<Rightarrow> rat" where
  "number_value (PyInt i) = of_int i"
| "number_value (PyFloat x) = x"

fun average_loop :: "('a \<times> nat) list \<Rightarrow> nat \<times> nat \<Rightarrow> nat \<times> nat" where
  "average_loop [] sc = sc"
| "average_loop (i # is) sc = average_loop is (fst sc + snd i, snd sc + 1)"

definition math_floor :: "rat \<Rightarrow> int" where
  "math_floor x = \<lfloor>x\<rfloor>"

definition math_ceil :: "rat \<Rightarrow> int" where
  "math_ceil x = \<lceil>x\<rceil>"

definition int_cast :: "rat \<Rightarrow> int" where
  "int_cast x = (if 0 \<le> x then \<lfloor>x\<rfloor> else \<lceil>x\<rceil>)"

definition get_average :: "'a social_network \<Rightarrow> string option \<Rightarrow> py_error + number" where
  "get_average self gov =
     (case average_loop (degree_view (graph self)) (0, 0) of
        (summation, count) \<Rightarrow>
          (case truediv summation count of
             Inl err \<Rightarrow> Inl err
           | Inr q \<Rightarrow>
               if gov = Some ''floor'' then Inr (PyInt (math_floor q))
               else if gov = Some ''ceiling'' then Inr (PyInt (math_ceil q))
               else if gov = Some ''cast'' then Inr (PyInt (int_cast q))
               else Inr (PyFloat q)))"

section \<open>Degrees of separation\<close>

text \<open>
  \<^verbatim>\<open>networkx.all_pairs_shortest_path_length\<close> yields, for every node of the graph in
  insertion order, the node and the dictionary of the lengths of the shortest paths from it,
  which the library finds by a breadth-first search, level by level: the source is at
  level 0, and the nodes first seen from a node of one level form the next. A node that the
  search does not reach has no entry.
\<close>

fun visit_neighbors :: "'a list \<Rightarrow> 'a set \<Rightarrow> 'a list \<Rightarrow> 'a set \<times> 'a list" where
  "visit_neighbors [] seen nextlevel = (seen, nextlevel)"
| "visit_neighbors (w # ws) seen nextlevel =
     (if w \<in> seen then visit_neighbors ws seen nextlevel
      else visit_neighbors ws (insert w seen) (nextlevel @ [w]))"

fun visit_level :: "'a multigraph \<Rightarrow> 'a list \<Rightarrow> 'a set \<Rightarrow> 'a list \<Rightarrow> 'a set \<times> 'a list" where
  "visit_level g [] seen nextlevel = (seen, nextlevel)"
| "visit_level g (v # vs) seen nextlevel =
     (case visit_neighbors (neighbors g v) seen nextlevel of
        (seen', nextlevel') \<Rightarrow> visit_level g vs seen' nextlevel')"

text \<open>
  The search stops because every level that is not empty takes its nodes out of the finitely
  many edge ends that have not been seen.
\<close>

definition verts :: "'a multigraph \<Rightarrow> 'a set" where
  "verts g = fst ` set (edges g) \<union> snd ` set (edges g)"

lemma set_add_key: "set (add_key k ks) = insert k (set ks)"
  by (auto simp: add_key_def)

lemma in_adj_keys:
  "w \<in> set (adj_keys es v ks) \<longleftrightarrow> w \<in> set ks \<or> (v, w) \<in> set es \<or> (w, v) \<in> set es"
proof (induction es arbitrary: ks)
  case Nil
  show ?case by simp
next
  case (Cons e es)
  obtain a b where e: "e = (a, b)" by (cases e)
  show ?case
    unfolding e by (simp add: Cons.IH set_add_key) blast
qed

lemma set_neighbors:
  "set (neighbors g v) = {w. (v, w) \<in> set (edges g) \<or> (w, v) \<in> set (edges g)}"
  unfolding neighbors_def by (rule set_eqI) (simp add: in_adj_keys)

lemma neighbors_verts: "set (neighbors g v) \<subseteq> verts g"
  by (force simp: set_neighbors verts_def)

lemma nbrs_verts: "(\<Union>v \<in> set vs. set (neighbors g v)) \<subseteq> verts g"
  using neighbors_verts[of g] by (rule_tac UN_least) simp

lemma visit_neighbors_result:
  "visit_neighbors ws seen nl = (seen', nl') \<Longrightarrow>
     seen' = seen \<union> set ws \<and> set nl' = set nl \<union> (set ws - seen)"
  by (induction ws seen nl rule: visit_neighbors.induct) (auto split: if_splits)

lemma visit_level_result:
  "visit_level g vs seen nl = (seen', nl') \<Longrightarrow>
     seen' = seen \<union> (\<Union>v \<in> set vs. set (neighbors g v)) \<and>
     set nl' = set nl \<union> ((\<Union>v \<in> set vs. set (neighbors g v)) - seen)"
proof (induction g vs seen nl rule: visit_level.induct)
  case (1 g seen nl)
  then show ?case by simp
next
  case (2 g v vs seen nl)
  obtain s1 n1 where vn: "visit_neighbors (neighbors g v) seen nl = (s1, n1)"
    by (cases "visit_neighbors (neighbors g v) seen nl")
  from visit_neighbors_result[OF vn]
  have s1: "s1 = seen \<union> set (neighbors g v)"
    and n1: "set n1 = set nl \<union> (set (neighbors g v) - seen)"
    by auto
  from 2(2) vn have "visit_level g vs s1 n1 = (seen', nl')" by simp
  from 2(1)[OF vn[symmetric] this] s1 n1 show ?case by auto
qed

lemma level_empty_seen:
  assumes s': "seen' = seen \<union> U" and nl: "set nextlevel = U - seen" and e: "nextlevel = []"
  shows "seen' = seen"
proof -
  from e nl have "U - seen = {}" by simp
  then have "U \<subseteq> seen" by (simp only: Diff_eq_empty_iff)
  then have "seen \<union> U = seen" by (rule Un_absorb2)
  with s' show ?thesis by simp
qed

lemma level_nonempty_unseen:
  assumes s': "seen' = seen \<union> U" and nl: "set nextlevel = U - seen" and e: "nextlevel \<noteq> []"
    and U: "U \<subseteq> V" and fin: "finite V"
  shows "card (V - seen') < card (V - seen)"
proof -
  from e have "hd nextlevel \<in> set nextlevel" by (rule hd_in_set)
  with nl have w: "hd nextlevel \<in> U" "hd nextlevel \<notin> seen" by simp_all
  with U have w3: "hd nextlevel \<in> V" by (rule_tac subsetD)
  from w(1) s' have w2: "hd nextlevel \<in> seen'" by simp
  have sub: "V - seen' \<subseteq> V - seen" unfolding s' by (rule Diff_mono) simp_all
  have "hd nextlevel \<in> V - seen" using w3 w(2) by simp
  moreover have "hd nextlevel \<notin> V - seen'" using w2 by simp
  ultimately have "V - seen' \<noteq> V - seen" by metis
  with sub have "V - seen' \<subset> V - seen" by (rule psubsetI)
  moreover have "finite (V - seen)" using fin by (rule finite_Diff)
  ultimately show ?thesis by (rule psubset_card_mono[rotated])
qed

lemma visit_level_measure:
  assumes vl: "visit_level g thislevel seen [] = (seen', nextlevel)"
  shows "card (verts g - seen') + (if nextlevel = [] then 0 else 1) < card (verts g - seen) + 1"
proof -
  let ?U = "\<Union>v \<in> set thislevel. set (neighbors g v)"
  from visit_level_result[OF vl]
  have s': "seen' = seen \<union> ?U" and nl: "set nextlevel = ?U - seen"
    by simp_all
  have fin: "finite (verts g)" by (simp add: verts_def)
  show ?thesis
  proof (cases "nextlevel = []")
    case True
    from level_empty_seen[OF s' nl True] True show ?thesis by simp
  next
    case False
    from level_nonempty_unseen[OF s' nl False nbrs_verts fin] False show ?thesis by simp
  qed
qed

function bfs_levels :: "'a multigraph \<Rightarrow> 'a list \<Rightarrow> 'a set \<Rightarrow> nat \<Rightarrow> ('a \<times> nat) list" where
  "bfs_levels g thislevel seen level =
     (if thislevel = [] then []
      else case visit_level g thislevel seen [] of
             (seen', nextlevel) \<Rightarrow>
               map (\<lambda>w. (w, Suc level)) nextlevel @ bfs_levels g nextlevel seen' (Suc level))"
  by pat_completeness auto

termination
proof (relation "measure (\<lambda>(g, thislevel, seen, level).
          card (verts g - seen) + (if thislevel = [] then 0 else 1))", goal_cases)
  case 1
  show ?case by (rule wf_measure)
next
  case (2 g thislevel seen level seen' nextlevel)
  from 2(2) have vl: "visit_level g thislevel seen [] = (seen', nextlevel)" by (rule sym)
  from visit_level_measure[OF vl] 2(1) show ?case
    unfolding in_measure by simp
qed

declare bfs_levels.simps [simp del]

definition single_source_shortest_path_length :: "'a multigraph \<Rightarrow> 'a \<Rightarrow> ('a \<times> nat) list" where
  "single_source_shortest_path_length g source = (source, 0) # bfs_levels g [source] {source} 0"

definition all_pairs_shortest_path_length :: "'a multigraph \<Rightarrow> ('a \<times> ('a \<times> nat) list) list" where
  "all_pairs_shortest_path_length g =
     map (\<lambda>n. (n, single_source_shortest_path_length g n)) (nodes g)"

text \<open>
  A dictionary is an association list in insertion order; \<^verbatim>\<open>update\<close> with one key
  replaces the value of a key that is there and appends a new key. The parameter
  \<^verbatim>\<open>degree\<close> of \<^verbatim>\<open>get_adjacency_with_separation_degree\<close> is \<open>deg\<close> here.
\<close>

fun dict_update :: "'k \<Rightarrow> 'v \<Rightarrow> ('k \<times> 'v) list \<Rightarrow> ('k \<times> 'v) list" where
  "dict_update k v [] = [(k, v)]"
| "dict_update k v (p # ps) = (if fst p = k then (k, v) # ps else p # dict_update k v ps)"

fun separation_inner :: "'a list \<Rightarrow> ('a \<times> nat) list \<Rightarrow> int \<Rightarrow> 'a set \<Rightarrow> 'a set" where
  "separation_inner [] dic deg temp = temp"
| "separation_inner (j # js) dic deg temp =
     (if map_option int (map_of dic j) = Some deg then separation_inner js dic deg (insert j temp)
      else separation_inner js dic deg temp)"

fun separation_outer ::
  "('a \<times> ('a \<times> nat) list) list \<Rightarrow> int \<Rightarrow> ('a \<times> 'a set) list \<Rightarrow> ('a \<times> 'a set) list" where
  "separation_outer [] deg adjacency = adjacency"
| "separation_outer (i # is) deg adjacency =
     (let dic = snd i;
          temp = separation_inner (map fst dic) dic deg {}
      in separation_outer is deg (dict_update (fst i) temp adjacency))"

definition get_adjacency_with_separation_degree ::
  "'a social_network \<Rightarrow> int \<Rightarrow> ('a \<times> 'a set) list" where
  "get_adjacency_with_separation_degree self deg =
     separation_outer (all_pairs_shortest_path_length (graph self)) deg []"

definition get_friends :: "'a social_network \<Rightarrow> ('a \<times> 'a set) list" where
  "get_friends self = get_adjacency_with_separation_degree self 1"

definition get_friends_of_friends :: "'a social_network \<Rightarrow> ('a \<times> 'a set) list" where
  "get_friends_of_friends self = get_adjacency_with_separation_degree self 2"

section \<open>Construction\<close>

lemma edges_add_node [simp]: "edges (add_node g n) = edges g"
  by (simp add: add_node_def)

lemma edges_add_nodes_from [simp]: "edges (add_nodes_from g ns) = edges g"
  unfolding add_nodes_from_def by (induction ns arbitrary: g) simp_all

lemma edges_add_edge [simp]: "edges (add_edge g e) = edges g @ [e]"
  by (simp add: add_edge_def Let_def)

lemma edges_add_edges_from [simp]: "edges (add_edges_from g es) = edges g @ es"
  unfolding add_edges_from_def by (induction es arbitrary: g) simp_all

lemma nodes_add_node [simp]: "nodes (add_node g n) = add_key n (nodes g)"
  by (simp add: add_node_def)

lemma set_nodes_add_nodes_from [simp]:
  "set (nodes (add_nodes_from g ns)) = set (nodes g) \<union> set ns"
  unfolding add_nodes_from_def by (induction ns arbitrary: g) (simp_all add: set_add_key)

lemma set_nodes_add_edge [simp]:
  "set (nodes (add_edge g e)) = insert (fst e) (insert (snd e) (set (nodes g)))"
  by (auto simp add: add_edge_def Let_def set_add_key)

lemma set_nodes_add_edges_from [simp]:
  "set (nodes (add_edges_from g es)) = set (nodes g) \<union> fst ` set es \<union> snd ` set es"
  unfolding add_edges_from_def by (induction es arbitrary: g) auto

lemma edges_init_supplied: "edges (graph (fst (init ppl (Some cs) gov src k))) = cs"
  by (simp add: init_def populate_graph_def MultiGraph_def)

lemma nodes_init_supplied:
  "set (nodes (graph (fst (init ppl (Some cs) gov src k))))
     = snd ` set ppl \<union> fst ` set cs \<union> snd ` set cs"
  by (simp add: init_def populate_graph_def MultiGraph_def)

text \<open>
  Claim C2, as stated: construction never adds an edge from a person to the same person,
  even when the supplied connections hold such a pair. It fails: \<^verbatim>\<open>populate_graph\<close> hands
  the supplied list to \<^verbatim>\<open>add_edges_from\<close> as it is, and the multigraph stores the pair
  \<^verbatim>\<open>("A", "A")\<close> as an edge from \<^verbatim>\<open>"A"\<close> to itself.
\<close>

theorem populate_graph_keeps_selfloop:
  "(''A'', ''A'') \<in> set (edges (graph (fst (init [(0, ''A'')] (Some [(''A'', ''A'')]) None (\<lambda>_. 0) 0))))
   \<and> has_selfloop (graph (fst (init [(0, ''A'')] (Some [(''A'', ''A'')]) None (\<lambda>_. 0) 0)))"
  by (simp add: edges_init_supplied has_selfloop_def)

text \<open>
  Claim C2, amended: the edges of the graph constructed from supplied connections are
  exactly the supplied connections, in their order; so the graph has an edge from a node to
  itself exactly when the supplied list holds a pair whose two elements are the same person.
\<close>

theorem populate_graph_selfloop_iff:
  "edges (graph (fst (init ppl (Some cs) gov src k))) = cs \<and>
   (has_selfloop (graph (fst (init ppl (Some cs) gov src k))) \<longleftrightarrow> (\<exists>p. (p, p) \<in> set cs))"
  unfolding has_selfloop_def edges_init_supplied
  by (metis fst_conv snd_conv prod.collapse)

theorem populate_graph_selfloop_iff_witness:
  "\<not> has_selfloop (graph (fst (init [(0, ''A''), (1, ''B'')] (Some [(''A'', ''B'')]) None (\<lambda>_. 0) 0)))"
  using populate_graph_selfloop_iff [of "[(0, ''A''), (1, ''B'')]" "[(''A'', ''B'')]" None "\<lambda>_. 0" 0]
  by simp

section \<open>People with more than four connections\<close>

lemma more_than_four_loop_eq:
  "more_than_four_loop xs P = P \<union> {fst i | i. i \<in> set xs \<and> 4 < snd i}"
  by (induction xs P rule: more_than_four_loop.induct) auto

lemma more_than_four_view:
  "more_than_four_loop (degree_view g) {} = {n \<in> set (nodes g). 4 < degree g n}"
  unfolding more_than_four_loop_eq degree_view_def by auto

text \<open>
  Claim C3, as stated: \<^verbatim>\<open>get_more_than_four\<close> returns the set of the nodes whose degree
  exceeds 4, and an empty set when there is none. It fails on one isolated person: the
  function returns a sentence, not an empty set.
\<close>

theorem get_more_than_four_isolated:
  "get_more_than_four (fst (init [(0, ''A'')] (Some []) None (\<lambda>_. 0) 0))
     = PyStr ''No one has more than four friends''
   \<and> get_more_than_four (fst (init [(0, ''A'')] (Some []) None (\<lambda>_. 0) 0)) \<noteq> PySet {}"
  by code_simp

text \<open>
  Claim C3, amended: \<^verbatim>\<open>get_more_than_four\<close> returns the set of the nodes whose degree
  exceeds 4 when there is such a node, and the sentence
  \<^verbatim>\<open>"No one has more than four friends"\<close> when there is none.
\<close>

theorem get_more_than_four_result:
  "get_more_than_four self =
     (let ps = filter (\<lambda>n. 4 < degree (graph self) n) (nodes (graph self))
      in if ps = [] then PyStr ''No one has more than four friends'' else PySet (set ps))"
proof -
  have eq: "{n \<in> set (nodes (graph self)). 4 < degree (graph self) n}
            = set (filter (\<lambda>n. 4 < degree (graph self) n) (nodes (graph self)))"
    by simp
  show ?thesis
    unfolding get_more_than_four_def Let_def more_than_four_view eq
    by (simp only: card_0_eq[OF finite_set] set_empty)
qed

theorem get_more_than_four_result_witness:
  "get_more_than_four
     (fst (init [(0, ''A'')] (Some [(''A'', ''A''), (''A'', ''B''), (''A'', ''B''), (''A'', ''C'')])
        None (\<lambda>_. 0) 0))
    = PySet {''A''}"
proof -
  let ?X = "fst (init [(0, ''A'')] (Some [(''A'', ''A''), (''A'', ''B''), (''A'', ''B''), (''A'', ''C'')])
              None (\<lambda>_. 0) 0)"
  have "(let ps = filter (\<lambda>n. 4 < degree (graph ?X) n) (nodes (graph ?X))
         in if ps = [] then PyStr ''No one has more than four friends'' else PySet (set ps))
        = PySet {''A''}"
    by code_simp
  with get_more_than_four_result [of ?X] show ?thesis by (rule trans)
qed

section \<open>Most and least popular people\<close>

text \<open>
  The nodes of highest and of lowest degree, which the two queries are compared with.
\<close>

definition max_degree_nodes :: "'a multigraph \<Rightarrow> 'a set" where
  "max_degree_nodes g = {n \<in> set (nodes g). \<forall>m \<in> set (nodes g). degree g m \<le> degree g n}"

definition min_degree_nodes :: "'a multigraph \<Rightarrow> 'a set" where
  "min_degree_nodes g = {n \<in> set (nodes g). \<forall>m \<in> set (nodes g). degree g n \<le> degree g m}"

lemma most_scan_Some:
  "\<exists>q. most_scan (Some p) xs = Some q \<and> (q = p \<or> q \<in> set xs) \<and> snd p \<le> snd q
        \<and> (\<forall>i \<in> set xs. snd i \<le> snd q)"
proof (induction xs arbitrary: p)
  case Nil
  show ?case by simp
next
  case (Cons i xs)
  show ?case
  proof (cases "snd p < snd i")
    case True
    from Cons.IH[of i] obtain q where q: "most_scan (Some i) xs = Some q"
      "q = i \<or> q \<in> set xs" "snd i \<le> snd q" "\<forall>j \<in> set xs. snd j \<le> snd q" by blast
    with True show ?thesis by auto
  next
    case False
    from Cons.IH[of p] obtain q where q: "most_scan (Some p) xs = Some q"
      "q = p \<or> q \<in> set xs" "snd p \<le> snd q" "\<forall>j \<in> set xs. snd j \<le> snd q" by blast
    with False show ?thesis by auto
  qed
qed

lemma least_scan_Some:
  "\<exists>q. least_scan (Some p) xs = Some q \<and> (q = p \<or> q \<in> set xs) \<and> snd q \<le> snd p
        \<and> (\<forall>i \<in> set xs. snd q \<le> snd i)"
proof (induction xs arbitrary: p)
  case Nil
  show ?case by simp
next
  case (Cons i xs)
  show ?case
  proof (cases "snd i < snd p")
    case True
    from Cons.IH[of i] obtain q where q: "least_scan (Some i) xs = Some q"
      "q = i \<or> q \<in> set xs" "snd q \<le> snd i" "\<forall>j \<in> set xs. snd q \<le> snd j" by blast
    with True show ?thesis by auto
  next
    case False
    from Cons.IH[of p] obtain q where q: "least_scan (Some p) xs = Some q"
      "q = p \<or> q \<in> set xs" "snd q \<le> snd p" "\<forall>j \<in> set xs. snd q \<le> snd j" by blast
    with False show ?thesis by auto
  qed
qed

lemma most_scan_None:
  "xs \<noteq> [] \<Longrightarrow> \<exists>q. most_scan None xs = Some q \<and> q \<in> set xs \<and> (\<forall>i \<in> set xs. snd i \<le> snd q)"
proof (cases xs)
  case Nil
  assume "xs \<noteq> []" with Nil show ?thesis by simp
next
  case (Cons p ps)
  from most_scan_Some[of p ps] obtain q where "most_scan (Some p) ps = Some q"
      "q = p \<or> q \<in> set ps" "snd p \<le> snd q" "\<forall>j \<in> set ps. snd j \<le> snd q" by blast
  with Cons show ?thesis by auto
qed

lemma least_scan_None:
  "xs \<noteq> [] \<Longrightarrow> \<exists>q. least_scan None xs = Some q \<and> q \<in> set xs \<and> (\<forall>i \<in> set xs. snd q \<le> snd i)"
proof (cases xs)
  case Nil
  assume "xs \<noteq> []" with Nil show ?thesis by simp
next
  case (Cons p ps)
  from least_scan_Some[of p ps] obtain q where "least_scan (Some p) ps = Some q"
      "q = p \<or> q \<in> set ps" "snd q \<le> snd p" "\<forall>j \<in> set ps. snd q \<le> snd j" by blast
  with Cons show ?thesis by auto
qed

lemma in_equally_popular:
  "x \<in> equally_popular person xs S \<longleftrightarrow> x \<in> S \<or> (\<exists>i \<in> set xs. snd i = snd person \<and> fst i = x)"
proof (induction xs arbitrary: S)
  case Nil
  show ?case by simp
next
  case (Cons i xs)
  show ?case by (simp add: Cons.IH) blast
qed

lemma equally_popular_eq:
  "equally_popular person xs S = S \<union> {fst i | i. i \<in> set xs \<and> snd i = snd person}"
proof (rule set_eqI)
  fix x
  show "x \<in> equally_popular person xs S
        \<longleftrightarrow> x \<in> S \<union> {fst i | i. i \<in> set xs \<and> snd i = snd person}"
    unfolding in_equally_popular by blast
qed

lemma in_degree_view: "i \<in> set (degree_view g) \<longleftrightarrow> fst i \<in> set (nodes g) \<and> snd i = degree g (fst i)"
  unfolding degree_view_def by (cases i) auto

lemma degree_view_Nil: "degree_view g = [] \<longleftrightarrow> nodes g = []"
  by (simp add: degree_view_def)

lemma get_most_popular_nonempty:
  assumes ne: "nodes (graph self) \<noteq> []"
  shows "get_most_popular self = Inr (max_degree_nodes (graph self))"
    and "max_degree_nodes (graph self) \<noteq> {}"
proof -
  let ?g = "graph self"
  from ne have "degree_view ?g \<noteq> []" by (simp add: degree_view_Nil)
  from most_scan_None[OF this] obtain q where q: "most_scan None (degree_view ?g) = Some q"
    "q \<in> set (degree_view ?g)" "\<forall>i \<in> set (degree_view ?g). snd i \<le> snd q" by blast
  from q(2) have qn: "fst q \<in> set (nodes ?g)" and qd: "snd q = degree ?g (fst q)"
    by (simp_all add: in_degree_view)
  have top: "\<And>m. m \<in> set (nodes ?g) \<Longrightarrow> degree ?g m \<le> snd q"
  proof -
    fix m assume "m \<in> set (nodes ?g)"
    then have "(m, degree ?g m) \<in> set (degree_view ?g)" by (simp add: in_degree_view)
    with q(3) show "degree ?g m \<le> snd q" by force
  qed
  have "{fst q} \<union> {fst i | i. i \<in> set (degree_view ?g) \<and> snd i = snd q} = max_degree_nodes ?g"
  proof (rule set_eqI, rule iffI)
    fix n assume "n \<in> {fst q} \<union> {fst i | i. i \<in> set (degree_view ?g) \<and> snd i = snd q}"
    then have "n \<in> set (nodes ?g) \<and> degree ?g n = snd q"
      using qn qd by (auto simp: in_degree_view)
    with top show "n \<in> max_degree_nodes ?g" by (simp add: max_degree_nodes_def)
  next
    fix n assume "n \<in> max_degree_nodes ?g"
    then have n: "n \<in> set (nodes ?g)" "degree ?g (fst q) \<le> degree ?g n"
      using qn by (simp_all add: max_degree_nodes_def)
    with top[OF n(1)] qd have "degree ?g n = snd q" by simp
    with n(1) have "(n, degree ?g n) \<in> set (degree_view ?g) \<and> snd (n, degree ?g n) = snd q"
      by (simp add: in_degree_view)
    then show "n \<in> {fst q} \<union> {fst i | i. i \<in> set (degree_view ?g) \<and> snd i = snd q}"
      by force
  qed
  then show "get_most_popular self = Inr (max_degree_nodes (graph self))"
    by (simp add: get_most_popular_def q(1) equally_popular_eq)
  from qn top qd show "max_degree_nodes (graph self) \<noteq> {}"
    unfolding max_degree_nodes_def by force
qed

lemma get_least_popular_nonempty:
  assumes ne: "nodes (graph self) \<noteq> []"
  shows "get_least_popular self = Inr (min_degree_nodes (graph self))"
    and "min_degree_nodes (graph self) \<noteq> {}"
proof -
  let ?g = "graph self"
  from ne have "degree_view ?g \<noteq> []" by (simp add: degree_view_Nil)
  from least_scan_None[OF this] obtain q where q: "least_scan None (degree_view ?g) = Some q"
    "q \<in> set (degree_view ?g)" "\<forall>i \<in> set (degree_view ?g). snd q \<le> snd i" by blast
  from q(2) have qn: "fst q \<in> set (nodes ?g)" and qd: "snd q = degree ?g (fst q)"
    by (simp_all add: in_degree_view)
  have bot: "\<And>m. m \<in> set (nodes ?g) \<Longrightarrow> snd q \<le> degree ?g m"
  proof -
    fix m assume "m \<in> set (nodes ?g)"
    then have "(m, degree ?g m) \<in> set (degree_view ?g)" by (simp add: in_degree_view)
    with q(3) show "snd q \<le> degree ?g m" by force
  qed
  have "{fst q} \<union> {fst i | i. i \<in> set (degree_view ?g) \<and> snd i = snd q} = min_degree_nodes ?g"
  proof (rule set_eqI, rule iffI)
    fix n assume "n \<in> {fst q} \<union> {fst i | i. i \<in> set (degree_view ?g) \<and> snd i = snd q}"
    then have "n \<in> set (nodes ?g) \<and> degree ?g n = snd q"
      using qn qd by (auto simp: in_degree_view)
    with bot show "n \<in> min_degree_nodes ?g" by (simp add: min_degree_nodes_def)
  next
    fix n assume "n \<in> min_degree_nodes ?g"
    then have n: "n \<in> set (nodes ?g)" "degree ?g n \<le> degree ?g (fst q)"
      using qn by (simp_all add: min_degree_nodes_def)
    with bot[OF n(1)] qd have "degree ?g n = snd q" by simp
    with n(1) have "(n, degree ?g n) \<in> set (degree_view ?g) \<and> snd (n, degree ?g n) = snd q"
      by (simp add: in_degree_view)
    then show "n \<in> {fst q} \<union> {fst i | i. i \<in> set (degree_view ?g) \<and> snd i = snd q}"
      by force
  qed
  then show "get_least_popular self = Inr (min_degree_nodes (graph self))"
    by (simp add: get_least_popular_def q(1) equally_popular_eq)
  from qn bot qd show "min_degree_nodes (graph self) \<noteq> {}"
    unfolding min_degree_nodes_def by force
qed

lemma max_min_degree:
  "p \<in> max_degree_nodes g \<Longrightarrow> q \<in> min_degree_nodes g \<Longrightarrow> degree g q \<le> degree g p"
  by (simp add: max_degree_nodes_def min_degree_nodes_def)


text \<open>
  Claim C6: on a graph with at least one node, \<^verbatim>\<open>get_most_popular\<close> returns exactly the
  set of all the nodes of highest degree and \<^verbatim>\<open>get_least_popular\<close> exactly the set of all
  the nodes of lowest degree, ties included; neither set is empty, and every person of the
  first has a degree at least that of every person of the second.
\<close>

theorem popular_sets_extremal:
  assumes "nodes (graph self) \<noteq> []"
  shows "get_most_popular self = Inr (max_degree_nodes (graph self))
       \<and> max_degree_nodes (graph self) \<noteq> {}
       \<and> get_least_popular self = Inr (min_degree_nodes (graph self))
       \<and> min_degree_nodes (graph self) \<noteq> {}
       \<and> (\<forall>p \<in> max_degree_nodes (graph self). \<forall>q \<in> min_degree_nodes (graph self).
             degree (graph self) q \<le> degree (graph self) p)"
  using get_most_popular_nonempty[OF assms] get_least_popular_nonempty[OF assms]
    max_min_degree[of _ "graph self"] by blast

theorem popular_sets_extremal_witness:
  "nodes (graph (fst (init [(0, ''A''), (1, ''B''), (2, ''C'')] (Some [(''A'', ''B''), (''B'', ''C'')]) None (\<lambda>_. 0) 0))) \<noteq> []
   \<and> get_most_popular (fst (init [(0, ''A''), (1, ''B''), (2, ''C'')] (Some [(''A'', ''B''), (''B'', ''C'')]) None (\<lambda>_. 0) 0))
       = Inr (max_degree_nodes (graph (fst (init [(0, ''A''), (1, ''B''), (2, ''C'')] (Some [(''A'', ''B''), (''B'', ''C'')]) None (\<lambda>_. 0) 0))))
   \<and> get_least_popular (fst (init [(0, ''A''), (1, ''B''), (2, ''C'')] (Some [(''A'', ''B''), (''B'', ''C'')]) None (\<lambda>_. 0) 0))
       = Inr (min_degree_nodes (graph (fst (init [(0, ''A''), (1, ''B''), (2, ''C'')] (Some [(''A'', ''B''), (''B'', ''C'')]) None (\<lambda>_. 0) 0))))"
proof -
  have ne: "nodes (graph (fst (init [(0, ''A''), (1, ''B''), (2, ''C'')] (Some [(''A'', ''B''), (''B'', ''C'')]) None (\<lambda>_. 0) 0))) \<noteq> []"
    by code_simp
  from ne popular_sets_extremal [OF ne] show ?thesis by blast
qed


section \<open>The double nearest to a quotient\<close>

lemma bit_length_bounds:
  "0 < n \<Longrightarrow> 2 ^ (bit_length n - 1) \<le> n \<and> n < 2 ^ bit_length n"
proof (induction n rule: bit_length.induct)
  case (1 n)
  show ?case
  proof (cases "n div 2 = 0")
    case True
    with 1(2) have n1: "n = 1" by (simp add: div_eq_0_iff) 
    have "bit_length 1 = 1" by (simp add: bit_length.simps[of "Suc 0"] bit_length.simps[of 0])
    with n1 show ?thesis by simp
  next
    case False
    with 1 have ih: "2 ^ (bit_length (n div 2) - 1) \<le> n div 2" "n div 2 < 2 ^ bit_length (n div 2)"
      by simp_all
    from 1(2) have bl: "bit_length n = Suc (bit_length (n div 2))"
      by (simp add: bit_length.simps[of n])
    from False have "bit_length (n div 2) \<noteq> 0" by (simp add: bit_length.simps[of "n div 2"])
    then obtain k where k: "bit_length (n div 2) = Suc k" by (cases "bit_length (n div 2)") simp_all
    from ih(1) k have "2 * 2 ^ k \<le> 2 * (n div 2)" by simp
    also have "\<dots> \<le> n" by simp
    finally have lo: "2 ^ (bit_length n - 1) \<le> n" by (simp add: bl k)
    have "n < 2 * (n div 2) + 2" by presburger
    also from ih(2) have "\<dots> \<le> 2 * 2 ^ bit_length (n div 2)" by simp
    finally have hi: "n < 2 ^ bit_length n" by (simp add: bl)
    from lo hi show ?thesis ..
  qed
qed

lemma round_half_even_cases:
  "round_half_even x = \<lfloor>x\<rfloor> \<and> x - of_int \<lfloor>x\<rfloor> \<le> 1 / 2
   \<or> round_half_even x = \<lfloor>x\<rfloor> + 1 \<and> 1 / 2 \<le> x - of_int \<lfloor>x\<rfloor>"
  unfolding round_half_even_def Let_def
  by (cases "x - of_int \<lfloor>x\<rfloor> < 1 / 2"; cases "1 / 2 < x - of_int \<lfloor>x\<rfloor>"; cases "even \<lfloor>x\<rfloor>") simp_all

lemma round_half_even_error: "\<bar>of_int (round_half_even x) - x\<bar> \<le> 1 / 2"
proof -
  have f: "of_int \<lfloor>x\<rfloor> \<le> x" "x < of_int \<lfloor>x\<rfloor> + 1" by linarith+
  from round_half_even_cases[of x] show ?thesis
  proof (elim disjE conjE)
    assume r: "round_half_even x = \<lfloor>x\<rfloor>" "x - of_int \<lfloor>x\<rfloor> \<le> 1 / 2"
    have "\<bar>of_int (round_half_even x) - x\<bar> = \<bar>of_int \<lfloor>x\<rfloor> - x\<bar>" by (simp only: r(1))
    also have "\<dots> \<le> 1 / 2" using f r(2) by linarith
    finally show ?thesis .
  next
    assume r: "round_half_even x = \<lfloor>x\<rfloor> + 1" "1 / 2 \<le> x - of_int \<lfloor>x\<rfloor>"
    have "\<bar>of_int (round_half_even x) - x\<bar> = \<bar>of_int \<lfloor>x\<rfloor> + 1 - x\<bar>" by (simp add: r(1))
    also have "\<dots> \<le> 1 / 2" using f r(2) by linarith
    finally show ?thesis .
  qed
qed

lemma quotient_exponent_le:
  assumes a: "0 < a" and b: "0 < b"
  shows "(2::rat) powi quotient_exponent a b \<le> of_nat a / of_nat b"
proof (cases "(2::rat) powi (int (bit_length a) - int (bit_length b)) \<le> of_nat a / of_nat b")
  case True
  then show ?thesis by (simp add: quotient_exponent_def Let_def)
next
  case False
  from bit_length_bounds[OF a] have la: "2 ^ (bit_length a - 1) \<le> a" by simp
  from bit_length_bounds[OF b] have lb: "b < 2 ^ bit_length b" by simp
  from a have pos: "bit_length a \<noteq> 0" by (simp add: bit_length.simps[of a])
  have "(2::rat) powi (int (bit_length a) - int (bit_length b) - 1)
        = 2 powi (int (bit_length a - 1) - int (bit_length b))"
    using pos by (simp add: of_nat_diff algebra_simps)
  also have "\<dots> = 2 ^ (bit_length a - 1) / 2 ^ bit_length b"
    by (simp add: power_int_diff)
  also have "\<dots> \<le> of_nat a / 2 ^ bit_length b"
  proof -
    from la have "(of_nat (2 ^ (bit_length a - 1)) :: rat) \<le> of_nat a" by (simp only: of_nat_le_iff)
    then have "(2::rat) ^ (bit_length a - 1) \<le> of_nat a" by simp
    then show ?thesis by (simp add: divide_right_mono)
  qed
  also have "\<dots> \<le> of_nat a / of_nat b"
  proof -
    from lb have "(of_nat b :: rat) \<le> of_nat (2 ^ bit_length b)" by (simp only: of_nat_le_iff less_imp_le)
    then have "(of_nat b :: rat) \<le> 2 ^ bit_length b" by simp
    moreover have "(0::rat) < of_nat b" using b by simp
    ultimately show ?thesis by (simp add: divide_left_mono)
  qed
  finally show ?thesis using False by (simp add: quotient_exponent_def Let_def)
qed

lemma nearest_double_error:
  assumes b: "0 < b"
  shows "\<bar>nearest_double a b - of_nat a / of_nat b\<bar> \<le> (of_nat a / of_nat b) / 2 ^ 53"
proof (cases "a = 0")
  case True
  then show ?thesis by (simp add: nearest_double_def)
next
  case False
  then have a: "0 < a" by simp
  define q :: rat where "q = of_nat a / of_nat b"
  define e where "e = quotient_exponent a b"
  define u :: rat where "u = 2 powi (e - 52)"
  define m where "m = round_half_even (q / u)"
  have u0: "0 < u" by (simp add: u_def)
  have nd: "nearest_double a b = of_int m * u"
    using False by (simp add: nearest_double_def Let_def m_def u_def e_def q_def)
  from round_half_even_error[of "q / u"] have "\<bar>of_int m - q / u\<bar> \<le> 1 / 2" by (simp add: m_def)
  then have "\<bar>of_int m - q / u\<bar> * u \<le> 1 / 2 * u" using u0 by (simp add: mult_right_mono)
  moreover have "\<bar>of_int m - q / u\<bar> * u = \<bar>of_int m * u - q\<bar>"
  proof -
    have "\<bar>of_int m - q / u\<bar> * u = \<bar>(of_int m - q / u) * u\<bar>" using u0 by (simp add: abs_mult)
    also have "(of_int m - q / u) * u = of_int m * u - q" using u0 by (simp add: algebra_simps)
    finally show ?thesis .
  qed
  ultimately have err: "\<bar>of_int m * u - q\<bar> \<le> u / 2" by simp
  have "u = 2 powi e / 2 ^ 52"
    unfolding u_def by (simp add: power_int_diff)
  then have "u / 2 = 2 powi e / 2 ^ 53" by simp
  also have "\<dots> \<le> q / 2 ^ 53"
    using quotient_exponent_le[OF a b] by (simp add: e_def q_def divide_right_mono)
  finally have "u / 2 \<le> q / 2 ^ 53" .
  with err show ?thesis by (simp add: nd q_def)
qed

section \<open>Failure on the graph without nodes\<close>

definition degree_sum :: "'a multigraph \<Rightarrow> nat" where
  "degree_sum g = sum_list (map (degree g) (nodes g))"

definition node_count :: "'a multigraph \<Rightarrow> nat" where
  "node_count g = length (nodes g)"

lemma average_loop_eq:
  "average_loop xs sc = (fst sc + sum_list (map snd xs), snd sc + length xs)"
  by (induction xs arbitrary: sc) simp_all

lemma average_loop_view:
  "average_loop (degree_view g) (0, 0) = (degree_sum g, node_count g)"
  by (simp add: average_loop_eq degree_view_def degree_sum_def node_count_def comp_def)

lemma get_average_empty:
  "nodes (graph self) = [] \<Longrightarrow> get_average self gov = Inl ZeroDivisionError"
  by (simp add: get_average_def average_loop_view degree_sum_def node_count_def truediv_def)

lemma get_average_nonempty:
  assumes "nodes (graph self) \<noteq> []"
  shows "get_average self gov =
     (let q = nearest_double (degree_sum (graph self)) (node_count (graph self))
      in if gov = Some ''floor'' then Inr (PyInt (math_floor q))
         else if gov = Some ''ceiling'' then Inr (PyInt (math_ceil q))
         else if gov = Some ''cast'' then Inr (PyInt (int_cast q))
         else Inr (PyFloat q))"
proof -
  from assms have "node_count (graph self) \<noteq> 0" by (simp add: node_count_def)
  then show ?thesis
    by (simp add: get_average_def average_loop_view truediv_def Let_def)
qed

lemma get_average_not_error:
  assumes "nodes (graph self) \<noteq> []"
  shows "\<not> isl (get_average self gov)"
  unfolding get_average_nonempty[OF assms] Let_def by simp

lemma get_most_popular_empty:
  "nodes (graph self) = [] \<Longrightarrow> get_most_popular self = Inl TypeError"
  by (simp add: get_most_popular_def degree_view_def)

lemma get_least_popular_empty:
  "nodes (graph self) = [] \<Longrightarrow> get_least_popular self = Inl TypeError"
  by (simp add: get_least_popular_def degree_view_def)


text \<open>
  Claim C4, as stated: on a graph with zero nodes \<^verbatim>\<open>get_most_popular\<close>,
  \<^verbatim>\<open>get_least_popular\<close> and \<^verbatim>\<open>get_average\<close>, under any governor, fail with
  \<^verbatim>\<open>EmptyGraphError\<close>, and they fail on no other input. The error is another: on the graph
  without nodes \<^verbatim>\<open>person\<close> is still \<^verbatim>\<open>None\<close> after the first loop, so \<^verbatim>\<open>person[0]\<close> raises
  \<^verbatim>\<open>TypeError\<close>, and \<^verbatim>\<open>summation/count\<close> divides by zero and raises \<^verbatim>\<open>ZeroDivisionError\<close>.
\<close>

theorem empty_graph_raises_builtin_errors:
  "get_most_popular (fst (init ([] :: string obj list) (Some []) None (\<lambda>_. 0) 0)) = Inl TypeError
   \<and> get_least_popular (fst (init ([] :: string obj list) (Some []) None (\<lambda>_. 0) 0)) = Inl TypeError
   \<and> get_average (fst (init ([] :: string obj list) (Some []) None (\<lambda>_. 0) 0)) None
        = Inl ZeroDivisionError
   \<and> get_most_popular (fst (init ([] :: string obj list) (Some []) None (\<lambda>_. 0) 0))
        \<noteq> Inl EmptyGraphError
   \<and> get_least_popular (fst (init ([] :: string obj list) (Some []) None (\<lambda>_. 0) 0))
        \<noteq> Inl EmptyGraphError
   \<and> get_average (fst (init ([] :: string obj list) (Some []) None (\<lambda>_. 0) 0)) None
        \<noteq> Inl EmptyGraphError"
  by code_simp

text \<open>
  Claim C4, amended: on a graph with zero nodes \<^verbatim>\<open>get_most_popular\<close> and
  \<^verbatim>\<open>get_least_popular\<close> fail with \<^verbatim>\<open>TypeError\<close> and \<^verbatim>\<open>get_average\<close>, under any governor,
  fails with \<^verbatim>\<open>ZeroDivisionError\<close>; on a graph with at least one node none of the three
  fails.
\<close>

theorem failure_only_on_empty_graph:
  "(nodes (graph self) = [] \<longrightarrow>
      get_most_popular self = Inl TypeError \<and> get_least_popular self = Inl TypeError
      \<and> get_average self gov = Inl ZeroDivisionError)
   \<and> (nodes (graph self) \<noteq> [] \<longrightarrow>
      \<not> isl (get_most_popular self) \<and> \<not> isl (get_least_popular self)
      \<and> \<not> isl (get_average self gov))"
proof (intro conjI impI)
  assume e: "nodes (graph self) = []"
  show "get_most_popular self = Inl TypeError" by (rule get_most_popular_empty[OF e])
  show "get_least_popular self = Inl TypeError" by (rule get_least_popular_empty[OF e])
  show "get_average self gov = Inl ZeroDivisionError" by (rule get_average_empty[OF e])
next
  assume ne: "nodes (graph self) \<noteq> []"
  show "\<not> isl (get_most_popular self)" by (simp add: get_most_popular_nonempty(1)[OF ne])
  show "\<not> isl (get_least_popular self)" by (simp add: get_least_popular_nonempty(1)[OF ne])
  show "\<not> isl (get_average self gov)" by (rule get_average_not_error[OF ne])
qed

theorem failure_only_on_empty_graph_witness:
  "get_most_popular (fst (init ([] :: string obj list) (Some []) None (\<lambda>_. 0) 0)) = Inl TypeError
   \<and> get_least_popular (fst (init ([] :: string obj list) (Some []) None (\<lambda>_. 0) 0)) = Inl TypeError
   \<and> get_average (fst (init ([] :: string obj list) (Some []) None (\<lambda>_. 0) 0)) (Some ''floor'')
        = Inl ZeroDivisionError
   \<and> \<not> isl (get_most_popular (fst (init [(0, ''A'')] (Some []) None (\<lambda>_. 0) 0)))
   \<and> \<not> isl (get_least_popular (fst (init [(0, ''A'')] (Some []) None (\<lambda>_. 0) 0)))
   \<and> \<not> isl (get_average (fst (init [(0, ''A'')] (Some []) None (\<lambda>_. 0) 0)) (Some ''floor''))"
proof -
  have e: "nodes (graph (fst (init ([] :: string obj list) (Some []) None (\<lambda>_. 0) 0))) = []"
    by code_simp
  have ne: "nodes (graph (fst (init [(0, ''A'')] (Some []) None (\<lambda>_. 0) 0))) \<noteq> []"
    by code_simp
  from e ne
    failure_only_on_empty_graph [of "fst (init ([] :: string obj list) (Some []) None (\<lambda>_. 0) 0)" "Some ''floor''"]
    failure_only_on_empty_graph [of "fst (init [(0, ''A'')] (Some []) None (\<lambda>_. 0) 0)" "Some ''floor''"]
  show ?thesis by blast
qed


section \<open>The average and its rounding\<close>

text \<open>The double that \<^verbatim>\<open>get_average\<close> computes before any rounding to an integer.\<close>

definition mean_double :: "'a multigraph \<Rightarrow> rat" where
  "mean_double g = nearest_double (degree_sum g) (node_count g)"

text \<open>
  The product \<^verbatim>\<open>x * n\<close> of a double and an integer, as Python computes it: the integer
  is converted to the nearest double, and the product of the two doubles is rounded to the
  nearest double.
\<close>

definition round_double :: "rat \<Rightarrow> rat" where
  "round_double q =
     (case quotient_of q of
        (a, b) \<Rightarrow> if 0 \<le> a then nearest_double (nat a) (nat b)
                  else - nearest_double (nat (- a)) (nat b))"

definition float_mul_int :: "rat \<Rightarrow> nat \<Rightarrow> rat" where
  "float_mul_int x n = round_double (x * round_double (of_nat n))"

lemma mean_double_error:
  assumes "nodes g \<noteq> []"
  shows "\<bar>mean_double g * of_nat (node_count g) - of_nat (degree_sum g)\<bar>
           \<le> of_nat (degree_sum g) / 2 ^ 53"
proof -
  define c :: rat where "c = of_nat (node_count g)"
  define s :: rat where "s = of_nat (degree_sum g)"
  from assms have c0: "0 < c" by (simp add: c_def node_count_def)
  from assms have "0 < node_count g" by (simp add: node_count_def)
  from nearest_double_error[OF this, of "degree_sum g"]
  have "\<bar>mean_double g - s / c\<bar> \<le> s / c / 2 ^ 53" by (simp add: mean_double_def s_def c_def)
  then have "\<bar>mean_double g - s / c\<bar> * c \<le> s / c / 2 ^ 53 * c"
    by (rule mult_right_mono) (use c0 in simp)
  moreover have "\<bar>mean_double g - s / c\<bar> * c = \<bar>mean_double g * c - s\<bar>"
  proof -
    have "\<bar>mean_double g - s / c\<bar> * c = \<bar>(mean_double g - s / c) * c\<bar>"
      using c0 by (simp add: abs_mult)
    also have "(mean_double g - s / c) * c = mean_double g * c - s"
      using c0 by (simp add: algebra_simps)
    finally show ?thesis .
  qed
  moreover have "s / c / 2 ^ 53 * c = s / 2 ^ 53" using c0 by simp
  ultimately show ?thesis by (simp add: s_def c_def)
qed

lemma nearest_double_nonneg:
  assumes "0 < b"
  shows "0 \<le> nearest_double a b"
proof -
  define Q :: rat where "Q = of_nat a / of_nat b"
  have q0: "0 \<le> Q" by (simp add: Q_def)
  have p53: "(2::rat) ^ 53 = 9007199254740992" by simp
  from nearest_double_error[OF assms, of a]
  have "\<bar>nearest_double a b - Q\<bar> \<le> Q / 9007199254740992" unfolding Q_def p53 .
  with q0 show ?thesis by linarith
qed

lemma round_double_error:
  assumes "0 \<le> q"
  shows "\<bar>round_double q - q\<bar> \<le> q / 2 ^ 53"
proof -
  obtain a b where ab: "quotient_of q = (a, b)" by (cases "quotient_of q")
  then have b0: "0 < b" by (rule quotient_of_denom_pos)
  from ab have q: "q = of_int a / of_int b" by (rule quotient_of_div)
  have a0: "0 \<le> a"
  proof (rule ccontr)
    assume "\<not> 0 \<le> a"
    then have "a < 0" by simp
    then have "(of_int a :: rat) / of_int b < 0" using b0 by (simp add: divide_neg_pos)
    with assms q show False by simp
  qed
  from a0 b0 have eq: "q = of_nat (nat a) / of_nat (nat b)" unfolding q by simp
  from b0 have nb: "0 < nat b" by simp
  have rd: "round_double q = nearest_double (nat a) (nat b)"
    using a0 by (simp add: round_double_def ab)
  from nearest_double_error[OF nb, of "nat a"] show ?thesis
    unfolding rd by (simp only: eq[symmetric])
qed

lemma round_double_nonneg:
  assumes "0 \<le> q"
  shows "0 \<le> round_double q"
proof -
  have p53: "(2::rat) ^ 53 = 9007199254740992" by simp
  from round_double_error[OF assms]
  have "\<bar>round_double q - q\<bar> \<le> q / 9007199254740992" unfolding p53 .
  with assms show ?thesis by linarith
qed

lemma tolerance_chain:
  fixes s p y z :: rat
  assumes "\<bar>p - s\<bar> \<le> s / 2 ^ 53" and "\<bar>y - p\<bar> \<le> p / 2 ^ 53" and "\<bar>z - y\<bar> \<le> y / 2 ^ 53"
  shows "\<bar>z - s\<bar> \<le> s / 2 ^ 51"
proof -
  have p53: "(2::rat) ^ 53 = 9007199254740992" by simp
  have p51: "(2::rat) ^ 51 = 2251799813685248" by simp
  from assms show ?thesis unfolding p53 p51 by linarith
qed

lemma float_product_error:
  assumes "nodes g \<noteq> []"
  shows "\<bar>float_mul_int (mean_double g) (node_count g) - of_nat (degree_sum g)\<bar>
           \<le> of_nat (degree_sum g) / 2 ^ 51"
proof -
  define x where "x = mean_double g"
  define c :: rat where "c = of_nat (node_count g)"
  define s :: rat where "s = of_nat (degree_sum g)"
  define n' where "n' = round_double c"
  from assms have "0 < node_count g" by (simp add: node_count_def)
  then have x0: "0 \<le> x" unfolding x_def mean_double_def by (rule nearest_double_nonneg)
  have c0: "0 \<le> c" by (simp add: c_def)
  then have n0: "0 \<le> n'" unfolding n'_def by (rule round_double_nonneg)
  have a1: "\<bar>x * c - s\<bar> \<le> s / 2 ^ 53"
    using mean_double_error[OF assms] by (simp add: x_def c_def s_def)
  have "\<bar>n' - c\<bar> \<le> c / 2 ^ 53" unfolding n'_def by (rule round_double_error[OF c0])
  then have "x * \<bar>n' - c\<bar> \<le> x * (c / 2 ^ 53)" using x0 by (rule mult_left_mono)
  moreover have "\<bar>x * n' - x * c\<bar> = x * \<bar>n' - c\<bar>"
  proof -
    have "x * n' - x * c = x * (n' - c)" by (simp add: algebra_simps)
    then show ?thesis using x0 by (simp add: abs_mult)
  qed
  ultimately have a2: "\<bar>x * n' - x * c\<bar> \<le> (x * c) / 2 ^ 53" by simp
  have "0 \<le> x * n'" using x0 n0 by simp
  then have a3: "\<bar>round_double (x * n') - x * n'\<bar> \<le> (x * n') / 2 ^ 53"
    by (rule round_double_error)
  from tolerance_chain[OF a1 a2 a3]
  show ?thesis by (simp add: float_mul_int_def x_def c_def s_def n'_def)
qed

text \<open>
  Claim C7: on a graph with at least one node, \<^verbatim>\<open>get_average\<close> with no governor times the
  node count equals the sum of the degrees of all nodes, within floating tolerance as the
  specification words the property, and the result under \<^verbatim>\<open>"floor"\<close> is at most, the
  result under \<^verbatim>\<open>"ceiling"\<close> at least, the result with no governor. The result with no
  governor is the double nearest to the sum divided by the count. Its product with the node
  count differs from the sum by at most the sum divided by \<open>2 ^ 53\<close> when the product is
  taken exactly, and by at most the sum divided by \<open>2 ^ 51\<close> when it is the double that
  Python's \<^verbatim>\<open>*\<close> returns. The results under \<^verbatim>\<open>"floor"\<close> and \<^verbatim>\<open>"ceiling"\<close> are the floor
  and the ceiling of the result with no governor.
\<close>

theorem get_average_within_tolerance:
  assumes "nodes (graph self) \<noteq> []"
  shows "get_average self None = Inr (PyFloat (mean_double (graph self)))
       \<and> get_average self (Some ''floor'') = Inr (PyInt \<lfloor>mean_double (graph self)\<rfloor>)
       \<and> get_average self (Some ''ceiling'') = Inr (PyInt \<lceil>mean_double (graph self)\<rceil>)
       \<and> \<bar>mean_double (graph self) * of_nat (node_count (graph self))
            - of_nat (degree_sum (graph self))\<bar> \<le> of_nat (degree_sum (graph self)) / 2 ^ 53
       \<and> \<bar>float_mul_int (mean_double (graph self)) (node_count (graph self))
            - of_nat (degree_sum (graph self))\<bar> \<le> of_nat (degree_sum (graph self)) / 2 ^ 51
       \<and> of_int \<lfloor>mean_double (graph self)\<rfloor> \<le> mean_double (graph self)
       \<and> mean_double (graph self) \<le> of_int \<lceil>mean_double (graph self)\<rceil>"
proof (intro conjI)
  show "get_average self None = Inr (PyFloat (mean_double (graph self)))"
    by (simp add: get_average_nonempty[OF assms] mean_double_def)
  show "get_average self (Some ''floor'') = Inr (PyInt \<lfloor>mean_double (graph self)\<rfloor>)"
    by (simp add: get_average_nonempty[OF assms] mean_double_def math_floor_def)
  show "get_average self (Some ''ceiling'') = Inr (PyInt \<lceil>mean_double (graph self)\<rceil>)"
    by (simp add: get_average_nonempty[OF assms] mean_double_def math_ceil_def)
  show "\<bar>mean_double (graph self) * of_nat (node_count (graph self))
            - of_nat (degree_sum (graph self))\<bar> \<le> of_nat (degree_sum (graph self)) / 2 ^ 53"
    by (rule mean_double_error[OF assms])
  show "\<bar>float_mul_int (mean_double (graph self)) (node_count (graph self))
            - of_nat (degree_sum (graph self))\<bar> \<le> of_nat (degree_sum (graph self)) / 2 ^ 51"
    by (rule float_product_error[OF assms])
  show "of_int \<lfloor>mean_double (graph self)\<rfloor> \<le> mean_double (graph self)" by (rule of_int_floor_le)
  show "mean_double (graph self) \<le> of_int \<lceil>mean_double (graph self)\<rceil>" by (rule le_of_int_ceiling)
qed

theorem get_average_within_tolerance_witness:
  "nodes (graph (fst (init [(0, ''A''), (1, ''B''), (2, ''C'')] (Some [(''A'', ''B''), (''B'', ''C'')]) None (\<lambda>_. 0) 0))) \<noteq> []
   \<and> get_average (fst (init [(0, ''A''), (1, ''B''), (2, ''C'')] (Some [(''A'', ''B''), (''B'', ''C'')]) None (\<lambda>_. 0) 0)) None
       = Inr (PyFloat (mean_double (graph (fst (init [(0, ''A''), (1, ''B''), (2, ''C'')] (Some [(''A'', ''B''), (''B'', ''C'')]) None (\<lambda>_. 0) 0)))))
   \<and> get_average (fst (init [(0, ''A''), (1, ''B''), (2, ''C'')] (Some [(''A'', ''B''), (''B'', ''C'')]) None (\<lambda>_. 0) 0)) (Some ''floor'')
       = Inr (PyInt \<lfloor>mean_double (graph (fst (init [(0, ''A''), (1, ''B''), (2, ''C'')] (Some [(''A'', ''B''), (''B'', ''C'')]) None (\<lambda>_. 0) 0)))\<rfloor>)"
proof -
  have ne: "nodes (graph (fst (init [(0, ''A''), (1, ''B''), (2, ''C'')] (Some [(''A'', ''B''), (''B'', ''C'')]) None (\<lambda>_. 0) 0))) \<noteq> []"
    by code_simp
  from ne get_average_within_tolerance [OF ne] show ?thesis by blast
qed

section \<open>What the search computes\<close>

text \<open>
  Two nodes are linked when one is a key of the adjacency dictionary of the other. The nodes
  at distance \<open>k\<close> from a source are those a walk of \<open>k\<close> links reaches and no shorter walk
  does. The search yields a node with the number \<open>k\<close> exactly when the node is at distance
  \<open>k\<close> from the source (\<open>sssp_iff\<close>), which is what the library documents.
\<close>

definition linked :: "'a multigraph \<Rightarrow> ('a \<times> 'a) set" where
  "linked g = {(u, v). v \<in> set (neighbors g u)}"

definition at_distance :: "'a multigraph \<Rightarrow> 'a \<Rightarrow> nat \<Rightarrow> 'a set" where
  "at_distance g s k = {v. (s, v) \<in> linked g ^^ k \<and> (\<forall>m<k. (s, v) \<notin> linked g ^^ m)}"

definition reach_within :: "'a multigraph \<Rightarrow> 'a \<Rightarrow> nat \<Rightarrow> 'a set" where
  "reach_within g s k = {v. \<exists>m\<le>k. (s, v) \<in> linked g ^^ m}"

fun level_set :: "'a multigraph \<Rightarrow> 'a set \<Rightarrow> 'a set \<Rightarrow> nat \<Rightarrow> 'a set" where
  "level_set g T S 0 = T"
| "level_set g T S (Suc k) =
     level_set g ((\<Union>v \<in> T. set (neighbors g v)) - S) (S \<union> ((\<Union>v \<in> T. set (neighbors g v)) - S)) k"

lemma level_set_empty: "level_set g {} S k = {}"
  by (induction k arbitrary: S) simp_all

lemma ex_nat_split: "(\<exists>k. P k) \<longleftrightarrow> P 0 \<or> (\<exists>k. P (Suc k))"
  by (metis not0_implies_Suc)

lemma bfs_levels_set:
  "(w, d) \<in> set (bfs_levels g this seen l)
     \<longleftrightarrow> (\<exists>k. d = l + Suc k \<and> w \<in> level_set g (set this) seen (Suc k))"
proof (induction g this seen l rule: bfs_levels.induct)
  case (1 g this seen l)
  show ?case
  proof (cases "this = []")
    case True
    have "bfs_levels g [] seen l = []" by (simp add: bfs_levels.simps[of g "[]"])
    with True show ?thesis by (simp add: level_set_empty)
  next
    case False
    obtain seen' nxt where vl: "visit_level g this seen [] = (seen', nxt)"
      by (cases "visit_level g this seen []")
    let ?U = "\<Union>v \<in> set this. set (neighbors g v)"
    from visit_level_result[OF vl]
    have s': "seen' = seen \<union> ?U" and nl: "set nxt = ?U - seen" by simp_all
    have s'': "seen' = seen \<union> (?U - seen)" unfolding s' by blast
    have ih: "(w, d) \<in> set (bfs_levels g nxt seen' (Suc l))
        \<longleftrightarrow> (\<exists>k. d = Suc l + Suc k \<and> w \<in> level_set g (set nxt) seen' (Suc k))"
      by (rule 1[OF False vl[symmetric]])
    have unf: "bfs_levels g this seen l
        = map (\<lambda>w. (w, Suc l)) nxt @ bfs_levels g nxt seen' (Suc l)"
      by (simp add: bfs_levels.simps[of g this] False vl)
    have shift: "\<And>k. level_set g (set this) seen (Suc k) = level_set g (set nxt) seen' k"
      unfolding nl s'' by simp
    have "(w, d) \<in> set (bfs_levels g this seen l)
        \<longleftrightarrow> (d = Suc l \<and> w \<in> set nxt) \<or> (w, d) \<in> set (bfs_levels g nxt seen' (Suc l))"
      unfolding unf by auto
    also have "\<dots> \<longleftrightarrow> (d = l + Suc 0 \<and> w \<in> level_set g (set nxt) seen' 0)
         \<or> (\<exists>k. d = l + Suc (Suc k) \<and> w \<in> level_set g (set nxt) seen' (Suc k))"
      unfolding ih by simp
    also have "\<dots> \<longleftrightarrow> (\<exists>k. d = l + Suc k \<and> w \<in> level_set g (set nxt) seen' k)"
      by (rule ex_nat_split[symmetric])
    finally show ?thesis unfolding shift .
  qed
qed

lemma sssp_set:
  "(w, d) \<in> set (single_source_shortest_path_length g s) \<longleftrightarrow> w \<in> level_set g {s} {s} d"
proof (cases d)
  case 0
  have "(w, 0) \<notin> set (bfs_levels g [s] {s} 0)" by (simp add: bfs_levels_set)
  with 0 show ?thesis by (auto simp: single_source_shortest_path_length_def)
next
  case (Suc k)
  have "(w, Suc k) \<in> set (bfs_levels g [s] {s} 0) \<longleftrightarrow> w \<in> level_set g (set [s]) {s} (Suc k)"
    unfolding bfs_levels_set by simp
  with Suc show ?thesis by (simp add: single_source_shortest_path_length_def)
qed

lemma linked_sym: "(u, v) \<in> linked g \<Longrightarrow> (v, u) \<in> linked g"
  by (auto simp: linked_def set_neighbors)

lemma linked_relpow_sym: "(u, v) \<in> linked g ^^ m \<Longrightarrow> (v, u) \<in> linked g ^^ m"
proof (induction m arbitrary: v)
  case 0
  then show ?case by simp
next
  case (Suc m)
  from Suc.prems obtain y where y: "(u, y) \<in> linked g ^^ m" "(y, v) \<in> linked g"
    by (rule relpow_Suc_E)
  from y(2) have "(v, y) \<in> linked g" by (rule linked_sym)
  moreover from y(1) have "(y, u) \<in> linked g ^^ m" by (rule Suc.IH)
  ultimately show ?case by (rule relpow_Suc_I2)
qed

lemma linked_relpow_sym_iff: "(u, v) \<in> linked g ^^ m \<longleftrightarrow> (v, u) \<in> linked g ^^ m"
  by (rule iffI) (erule linked_relpow_sym)+

lemma at_distance_sym: "v \<in> at_distance g s k \<longleftrightarrow> s \<in> at_distance g v k"
  unfolding at_distance_def mem_Collect_eq
  by (simp only: linked_relpow_sym_iff[of s v])

lemma at_distance_0: "at_distance g s 0 = {s}"
  by (auto simp: at_distance_def)

lemma reach_within_0: "reach_within g s 0 = {s}"
  by (auto simp: reach_within_def)

lemma at_distance_step:
  "(\<Union>v \<in> at_distance g s j. set (neighbors g v)) - reach_within g s j = at_distance g s (Suc j)"
proof (rule set_eqI, rule iffI)
  fix w assume "w \<in> (\<Union>v \<in> at_distance g s j. set (neighbors g v)) - reach_within g s j"
  then obtain v where v: "v \<in> at_distance g s j" "w \<in> set (neighbors g v)"
    and nw: "w \<notin> reach_within g s j" by blast
  from v(1) have "(s, v) \<in> linked g ^^ j" by (simp add: at_distance_def)
  moreover from v(2) have "(v, w) \<in> linked g" by (simp add: linked_def)
  ultimately have p: "(s, w) \<in> linked g ^^ Suc j" by (rule relpow_Suc_I)
  have "\<forall>m<Suc j. (s, w) \<notin> linked g ^^ m"
  proof (intro allI impI)
    fix m assume "m < Suc j"
    then have "m \<le> j" by simp
    with nw show "(s, w) \<notin> linked g ^^ m" unfolding reach_within_def by blast
  qed
  with p show "w \<in> at_distance g s (Suc j)" by (simp add: at_distance_def)
next
  fix w assume w: "w \<in> at_distance g s (Suc j)"
  then have p: "(s, w) \<in> linked g ^^ Suc j" and np: "\<forall>m<Suc j. (s, w) \<notin> linked g ^^ m"
    by (simp_all add: at_distance_def)
  from p obtain v where v: "(s, v) \<in> linked g ^^ j" "(v, w) \<in> linked g"
    by (rule relpow_Suc_E)
  have "\<forall>m<j. (s, v) \<notin> linked g ^^ m"
  proof (intro allI impI notI)
    fix m assume m: "m < j" and "(s, v) \<in> linked g ^^ m"
    from this(2) v(2) have "(s, w) \<in> linked g ^^ Suc m" by (rule relpow_Suc_I)
    moreover from m have "Suc m < Suc j" by simp
    ultimately show False using np by blast
  qed
  with v(1) have vd: "v \<in> at_distance g s j" by (simp add: at_distance_def)
  from v(2) have wn: "w \<in> set (neighbors g v)" by (simp add: linked_def)
  have "w \<notin> reach_within g s j"
  proof
    assume "w \<in> reach_within g s j"
    then obtain m where "m \<le> j" "(s, w) \<in> linked g ^^ m" unfolding reach_within_def by blast
    moreover then have "m < Suc j" by simp
    ultimately show False using np by blast
  qed
  with vd wn show "w \<in> (\<Union>v \<in> at_distance g s j. set (neighbors g v)) - reach_within g s j"
    by blast
qed

lemma reach_within_step:
  "reach_within g s j \<union> at_distance g s (Suc j) = reach_within g s (Suc j)"
proof (rule set_eqI, rule iffI)
  fix w assume "w \<in> reach_within g s j \<union> at_distance g s (Suc j)"
  then show "w \<in> reach_within g s (Suc j)"
  proof
    assume "w \<in> reach_within g s j"
    then obtain m where "m \<le> j" "(s, w) \<in> linked g ^^ m" unfolding reach_within_def by blast
    moreover then have "m \<le> Suc j" by simp
    ultimately show ?thesis unfolding reach_within_def by blast
  next
    assume "w \<in> at_distance g s (Suc j)"
    then have "(s, w) \<in> linked g ^^ Suc j" by (simp add: at_distance_def)
    then show ?thesis unfolding reach_within_def by blast
  qed
next
  fix w assume "w \<in> reach_within g s (Suc j)"
  then obtain m where m: "m \<le> Suc j" "(s, w) \<in> linked g ^^ m" unfolding reach_within_def by blast
  show "w \<in> reach_within g s j \<union> at_distance g s (Suc j)"
  proof (cases "\<exists>m'\<le>j. (s, w) \<in> linked g ^^ m'")
    case True
    then show ?thesis unfolding reach_within_def by blast
  next
    case False
    with m have "m = Suc j" by (metis le_SucE)
    moreover from False have "\<forall>m'<Suc j. (s, w) \<notin> linked g ^^ m'" by (simp add: less_Suc_eq_le)
    ultimately have "w \<in> at_distance g s (Suc j)" using m(2) by (simp add: at_distance_def)
    then show ?thesis by blast
  qed
qed

lemma level_set_at_distance:
  "level_set g (at_distance g s j) (reach_within g s j) k = at_distance g s (j + k)"
proof (induction k arbitrary: j)
  case 0
  show ?case by simp
next
  case (Suc k)
  have "level_set g (at_distance g s j) (reach_within g s j) (Suc k)
      = level_set g (at_distance g s (Suc j)) (reach_within g s (Suc j)) k"
    by (simp add: at_distance_step reach_within_step)
  also have "\<dots> = at_distance g s (Suc j + k)" by (rule Suc.IH)
  finally show ?case by simp
qed

lemma sssp_iff:
  "(w, d) \<in> set (single_source_shortest_path_length g s) \<longleftrightarrow> w \<in> at_distance g s d"
  using level_set_at_distance[of g s 0 d]
  by (simp add: sssp_set at_distance_0 reach_within_0)

lemma sssp_functional:
  assumes "(w, d) \<in> set (single_source_shortest_path_length g s)"
    and "(w, d') \<in> set (single_source_shortest_path_length g s)"
  shows "d = d'"
proof -
  from assms have a: "w \<in> at_distance g s d" "w \<in> at_distance g s d'" by (simp_all add: sssp_iff)
  show ?thesis
  proof (rule ccontr)
    assume "d \<noteq> d'"
    then consider "d < d'" | "d' < d" by linarith
    then show False using a unfolding at_distance_def by cases blast+
  qed
qed

lemma sssp_map_of:
  "map_of (single_source_shortest_path_length g s) w = Some d \<longleftrightarrow> w \<in> at_distance g s d"
proof
  assume "map_of (single_source_shortest_path_length g s) w = Some d"
  then have "(w, d) \<in> set (single_source_shortest_path_length g s)" by (rule map_of_SomeD)
  then show "w \<in> at_distance g s d" by (simp add: sssp_iff)
next
  assume "w \<in> at_distance g s d"
  then have in1: "(w, d) \<in> set (single_source_shortest_path_length g s)" by (simp add: sssp_iff)
  then have "w \<in> fst ` set (single_source_shortest_path_length g s)" by force
  then obtain d' where d': "map_of (single_source_shortest_path_length g s) w = Some d'"
    by (metis domD dom_map_of_conv_image_fst)
  then have "(w, d') \<in> set (single_source_shortest_path_length g s)" by (rule map_of_SomeD)
  with in1 have "d = d'" by (rule sssp_functional)
  with d' show "map_of (single_source_shortest_path_length g s) w = Some d" by simp
qed

section \<open>People at a given degree of separation\<close>

definition separated :: "'a multigraph \<Rightarrow> int \<Rightarrow> 'a \<Rightarrow> 'a set" where
  "separated g deg p = {q. \<exists>d. int d = deg \<and> q \<in> at_distance g p d}"

lemma in_separation_inner:
  "x \<in> separation_inner js dic deg temp
     \<longleftrightarrow> x \<in> temp \<or> (x \<in> set js \<and> map_option int (map_of dic x) = Some deg)"
proof (induction js arbitrary: temp)
  case Nil
  show ?case by simp
next
  case (Cons j js)
  show ?case by (simp add: Cons.IH) blast
qed

lemma separation_inner_sssp:
  "separation_inner (map fst (single_source_shortest_path_length g p))
     (single_source_shortest_path_length g p) deg {} = separated g deg p"
proof (rule set_eqI, rule iffI)
  fix x
  let ?dic = "single_source_shortest_path_length g p"
  assume "x \<in> separation_inner (map fst ?dic) ?dic deg {}"
  then have "map_option int (map_of ?dic x) = Some deg" by (simp add: in_separation_inner)
  then obtain d where "map_of ?dic x = Some d" "int d = deg" by (cases "map_of ?dic x") auto
  then show "x \<in> separated g deg p" unfolding separated_def by (auto simp: sssp_map_of)
next
  fix x
  let ?dic = "single_source_shortest_path_length g p"
  assume "x \<in> separated g deg p"
  then obtain d where d: "int d = deg" "x \<in> at_distance g p d" unfolding separated_def by blast
  from d(2) have m: "map_of ?dic x = Some d" by (simp add: sssp_map_of)
  then have "(x, d) \<in> set ?dic" by (rule map_of_SomeD)
  then have "x \<in> set (map fst ?dic)" by force
  with m d(1) show "x \<in> separation_inner (map fst ?dic) ?dic deg {}"
    by (simp add: in_separation_inner)
qed

lemma map_of_dict_update: "map_of (dict_update k v al) = (map_of al)(k \<mapsto> v)"
  by (induction al) (auto simp: fun_eq_iff)

lemma keys_dict_update:
  "map fst (dict_update k v al) = (if k \<in> fst ` set al then map fst al else map fst al @ [k])"
  by (induction al) auto

lemma distinct_dict_update:
  "distinct (map fst al) \<Longrightarrow> distinct (map fst (dict_update k v al))"
  by (simp add: keys_dict_update)

lemma separation_outer_map_of:
  "map_of (separation_outer (map (\<lambda>n. (n, single_source_shortest_path_length g n)) ns) deg adj) k
     = (if k \<in> set ns then Some (separated g deg k) else map_of adj k)"
proof (induction ns arbitrary: adj)
  case Nil
  show ?case by simp
next
  case (Cons n ns)
  show ?case
    by (simp add: Let_def Cons.IH separation_inner_sssp map_of_dict_update)
qed

lemma separation_outer_distinct:
  "distinct (map fst adj) \<Longrightarrow> distinct (map fst (separation_outer xs deg adj))"
proof (induction xs arbitrary: adj)
  case Nil
  then show ?case by simp
next
  case (Cons i xs)
  from Cons.prems have "distinct (map fst (dict_update (fst i)
      (separation_inner (map fst (snd i)) (snd i) deg {}) adj))"
    by (rule distinct_dict_update)
  then show ?case by (simp add: Let_def Cons.IH)
qed

lemma adjacency_lookup:
  "map_of (get_adjacency_with_separation_degree self deg) k
     = (if k \<in> set (nodes (graph self)) then Some (separated (graph self) deg k) else None)"
  by (simp add: get_adjacency_with_separation_degree_def all_pairs_shortest_path_length_def
      separation_outer_map_of)

lemma adjacency_keys:
  "fst ` set (get_adjacency_with_separation_degree self deg) = set (nodes (graph self))"
proof -
  have "fst ` set (get_adjacency_with_separation_degree self deg)
        = dom (map_of (get_adjacency_with_separation_degree self deg))"
    by (simp add: dom_map_of_conv_image_fst)
  also have "\<dots> = set (nodes (graph self))"
    by (auto simp: dom_def adjacency_lookup)
  finally show ?thesis .
qed

lemma adjacency_distinct:
  "distinct (map fst (get_adjacency_with_separation_degree self deg))"
  unfolding get_adjacency_with_separation_degree_def
  by (rule separation_outer_distinct) simp

lemma separated_0: "separated g 0 p = {p}"
  by (auto simp: separated_def at_distance_0)

lemma at_distance_1: "at_distance g p 1 = set (neighbors g p) - {p}"
  using at_distance_step[of g p 0] by (simp add: at_distance_0 reach_within_0)

lemma separated_1: "separated g 1 p = set (neighbors g p) - {p}"
proof -
  have "separated g 1 p = at_distance g p 1"
    unfolding separated_def by auto
  then show ?thesis by (simp only: at_distance_1)
qed

lemma separated_sym: "q \<in> separated g deg p \<longleftrightarrow> p \<in> separated g deg q"
  unfolding separated_def mem_Collect_eq by (simp only: at_distance_sym[of q g p])


text \<open>
  Claim C8: the keys of \<^verbatim>\<open>get_friends\<close> are exactly the nodes of the graph, every node
  being a key, also a node with nobody at distance 1, whose set is then empty; and no node
  is a member of its own set of friends. The set of a node is the set of the nodes linked
  to it, without the node itself.
\<close>

theorem get_friends_keys_and_irreflexive:
  "fst ` set (get_friends self) = set (nodes (graph self))
   \<and> distinct (map fst (get_friends self))
   \<and> (\<forall>p \<in> set (nodes (graph self)).
         map_of (get_friends self) p = Some (set (neighbors (graph self) p) - {p}))
   \<and> (\<forall>p S. map_of (get_friends self) p = Some S \<longrightarrow> p \<notin> S)"
  unfolding get_friends_def
  by (auto simp: adjacency_keys adjacency_distinct adjacency_lookup separated_1 split: if_splits)


theorem get_friends_keys_and_irreflexive_witness:
  "''B'' \<in> set (nodes (graph (fst (init [(0, ''A''), (1, ''B''), (2, ''C'')] (Some [(''A'', ''B''), (''B'', ''C'')]) None (\<lambda>_. 0) 0))))
   \<and> map_of (get_friends (fst (init [(0, ''A''), (1, ''B''), (2, ''C'')] (Some [(''A'', ''B''), (''B'', ''C'')]) None (\<lambda>_. 0) 0))) ''B'' = Some (set (neighbors (graph (fst (init [(0, ''A''), (1, ''B''), (2, ''C'')] (Some [(''A'', ''B''), (''B'', ''C'')]) None (\<lambda>_. 0) 0))) ''B'') - {''B''})
   \<and> fst ` set (get_friends (fst (init [(0, ''A''), (1, ''B''), (2, ''C'')] (Some [(''A'', ''B''), (''B'', ''C'')]) None (\<lambda>_. 0) 0))) = set (nodes (graph (fst (init [(0, ''A''), (1, ''B''), (2, ''C'')] (Some [(''A'', ''B''), (''B'', ''C'')]) None (\<lambda>_. 0) 0))))"
proof -
  have n: "''B'' \<in> set (nodes (graph (fst (init [(0, ''A''), (1, ''B''), (2, ''C'')] (Some [(''A'', ''B''), (''B'', ''C'')]) None (\<lambda>_. 0) 0))))"
    by code_simp
  from n get_friends_keys_and_irreflexive [of "fst (init [(0, ''A''), (1, ''B''), (2, ''C'')] (Some [(''A'', ''B''), (''B'', ''C'')]) None (\<lambda>_. 0) 0)"]
  show ?thesis by blast
qed

text \<open>
  Claim C9: \<^verbatim>\<open>get_adjacency_with_separation_degree(0)\<close> maps every node of the graph to the
  set whose only member is that node.
\<close>

theorem separation_zero_is_self:
  "fst ` set (get_adjacency_with_separation_degree self 0) = set (nodes (graph self))
   \<and> (\<forall>p \<in> set (nodes (graph self)).
         map_of (get_adjacency_with_separation_degree self 0) p = Some {p})"
  by (simp add: adjacency_keys adjacency_lookup separated_0)


theorem separation_zero_is_self_witness:
  "''B'' \<in> set (nodes (graph (fst (init [(0, ''A''), (1, ''B''), (2, ''C'')] (Some [(''A'', ''B''), (''B'', ''C'')]) None (\<lambda>_. 0) 0))))
   \<and> map_of (get_adjacency_with_separation_degree (fst (init [(0, ''A''), (1, ''B''), (2, ''C'')] (Some [(''A'', ''B''), (''B'', ''C'')]) None (\<lambda>_. 0) 0)) 0) ''B'' = Some {''B''}"
proof -
  have n: "''B'' \<in> set (nodes (graph (fst (init [(0, ''A''), (1, ''B''), (2, ''C'')] (Some [(''A'', ''B''), (''B'', ''C'')]) None (\<lambda>_. 0) 0))))"
    by code_simp
  from n separation_zero_is_self [of "fst (init [(0, ''A''), (1, ''B''), (2, ''C'')] (Some [(''A'', ''B''), (''B'', ''C'')]) None (\<lambda>_. 0) 0)"]
  show ?thesis by blast
qed

text \<open>
  Claim C10: for every graph, every integer \<open>d\<close> and all nodes \<open>p\<close> and \<open>q\<close> of the graph,
  \<open>q\<close> is in the set that \<^verbatim>\<open>get_adjacency_with_separation_degree(d)\<close> gives \<open>p\<close> exactly
  when \<open>p\<close> is in the set it gives \<open>q\<close>.
\<close>

theorem separation_symmetric:
  "\<forall>p \<in> set (nodes (graph self)). \<forall>q \<in> set (nodes (graph self)).
     (\<exists>S. map_of (get_adjacency_with_separation_degree self d) p = Some S \<and> q \<in> S)
     \<longleftrightarrow> (\<exists>S. map_of (get_adjacency_with_separation_degree self d) q = Some S \<and> p \<in> S)"
  by (simp add: adjacency_lookup separated_sym)

theorem separation_symmetric_witness:
  "''A'' \<in> set (nodes (graph (fst (init [(0, ''A''), (1, ''B''), (2, ''C'')] (Some [(''A'', ''B''), (''B'', ''C'')]) None (\<lambda>_. 0) 0)))) \<and> ''B'' \<in> set (nodes (graph (fst (init [(0, ''A''), (1, ''B''), (2, ''C'')] (Some [(''A'', ''B''), (''B'', ''C'')]) None (\<lambda>_. 0) 0))))
   \<and> ((\<exists>S. map_of (get_adjacency_with_separation_degree (fst (init [(0, ''A''), (1, ''B''), (2, ''C'')] (Some [(''A'', ''B''), (''B'', ''C'')]) None (\<lambda>_. 0) 0)) 1) ''A'' = Some S \<and> ''B'' \<in> S)
       \<longleftrightarrow> (\<exists>S. map_of (get_adjacency_with_separation_degree (fst (init [(0, ''A''), (1, ''B''), (2, ''C'')] (Some [(''A'', ''B''), (''B'', ''C'')]) None (\<lambda>_. 0) 0)) 1) ''B'' = Some S \<and> ''A'' \<in> S))"
proof -
  have n: "''A'' \<in> set (nodes (graph (fst (init [(0, ''A''), (1, ''B''), (2, ''C'')] (Some [(''A'', ''B''), (''B'', ''C'')]) None (\<lambda>_. 0) 0))))" "''B'' \<in> set (nodes (graph (fst (init [(0, ''A''), (1, ''B''), (2, ''C'')] (Some [(''A'', ''B''), (''B'', ''C'')]) None (\<lambda>_. 0) 0))))"
    by code_simp+
  from n separation_symmetric [of "fst (init [(0, ''A''), (1, ''B''), (2, ''C'')] (Some [(''A'', ''B''), (''B'', ''C'')]) None (\<lambda>_. 0) 0)" 1]
  show ?thesis by blast
qed

section \<open>Random connections\<close>

text \<open>
  The generator as the specification words it: the candidate partners of a person are the
  people other than that person, in the order of the sequence; a coin is flipped for each
  candidate in turn, the first candidate whose flip succeeds gives the one connection the
  person initiates, and no connection is initiated when no flip succeeds. A flip reads the
  next number of the random source and succeeds when the number is not 0. People are
  values here, as in the specification.
\<close>

definition candidates :: "'a \<Rightarrow> 'a list \<Rightarrow> 'a list" where
  "candidates i ps = filter (\<lambda>j. j \<noteq> i) ps"

fun first_success :: "'a list \<Rightarrow> (nat \<Rightarrow> nat) \<Rightarrow> nat \<Rightarrow> 'a option \<times> nat" where
  "first_success [] src k = (None, k)"
| "first_success (j # js) src k =
     (if src k \<noteq> 0 then (Some j, Suc k) else first_success js src (Suc k))"

definition initiates :: "'a \<Rightarrow> 'a list \<Rightarrow> (nat \<Rightarrow> nat) \<Rightarrow> nat \<Rightarrow> ('a \<times> 'a) list \<times> nat" where
  "initiates i ps src k =
     (case first_success (candidates i ps) src k of
        (None, k') \<Rightarrow> ([], k')
      | (Some j, k') \<Rightarrow> ([(i, j)], k'))"

fun generate_random ::
  "'a list \<Rightarrow> 'a list \<Rightarrow> (nat \<Rightarrow> nat) \<Rightarrow> nat \<Rightarrow> ('a \<times> 'a) list \<times> nat" where
  "generate_random [] ps src k = ([], k)"
| "generate_random (i # is) ps src k =
     (case initiates i ps src k of
        (c, k') \<Rightarrow> (case generate_random is ps src k' of (cs, k'') \<Rightarrow> (c @ cs, k'')))"


text \<open>
  In Python one object has one value: references to the same address read the same value.
\<close>

definition heap_consistent :: "'a obj list \<Rightarrow> bool" where
  "heap_consistent ps \<longleftrightarrow> (\<forall>i \<in> set ps. \<forall>j \<in> set ps. fst i = fst j \<longrightarrow> snd i = snd j)"

lemma random_inner_appends:
  "\<exists>new. fst (random_inner i js src k conns) = conns @ new \<and> length new \<le> 1"
  by (induction js arbitrary: k) auto

lemma random_outer_appends:
  "\<exists>new. fst (random_outer is ps src k conns) = conns @ new \<and> length new \<le> length is"
proof (induction "is" arbitrary: k conns)
  case Nil
  show ?case by simp
next
  case (Cons i "is")
  obtain c1 k1 where r: "random_inner i ps src k conns = (c1, k1)"
    by (cases "random_inner i ps src k conns")
  from random_inner_appends[of i ps src k conns] r
  obtain n1 where n1: "c1 = conns @ n1" "length n1 \<le> 1" by auto
  from Cons.IH[of k1 c1]
  obtain n2 where n2: "fst (random_outer is ps src k1 c1) = c1 @ n2" "length n2 \<le> length is"
    by blast
  have "fst (random_outer (i # is) ps src k conns) = fst (random_outer is ps src k1 c1)"
    by (simp add: r)
  also have "\<dots> = conns @ (n1 @ n2)" using n2(1) unfolding n1(1) by simp
  finally have "fst (random_outer (i # is) ps src k conns) = conns @ (n1 @ n2)" .
  moreover have "length (n1 @ n2) \<le> length (i # is)" using n1(2) n2(2) by simp
  ultimately show ?case by blast
qed

lemma same_object_iff:
  assumes h: "heap_consistent ps" and d: "distinct (map snd ps)"
    and i: "i \<in> set ps" and j: "j \<in> set ps"
  shows "(fst i = fst j) = (snd i = snd j)"
proof
  assume "fst i = fst j"
  with h i j show "snd i = snd j" unfolding heap_consistent_def by blast
next
  assume e: "snd i = snd j"
  from d have "inj_on snd (set ps)" by (simp add: distinct_map)
  from this e i j have "i = j" by (rule inj_onD)
  then show "fst i = fst j" by simp
qed

lemma random_inner_first_success:
  assumes "\<forall>j \<in> set js. (fst i = fst j) = (snd i = snd j)"
  shows "random_inner i js src k conns =
     (case first_success (candidates (snd i) (map snd js)) src k of
        (None, k') \<Rightarrow> (conns, k')
      | (Some j, k') \<Rightarrow> (conns @ [(snd i, j)], k'))"
  using assms by (induction js arbitrary: k) (auto simp: candidates_def)

lemma random_inner_initiates:
  assumes "\<forall>j \<in> set ps. (fst i = fst j) = (snd i = snd j)"
  shows "random_inner i ps src k conns
     = (conns @ fst (initiates (snd i) (map snd ps) src k),
        snd (initiates (snd i) (map snd ps) src k))"
  unfolding random_inner_first_success[OF assms] initiates_def
  by (simp split: prod.split option.split)

lemma random_outer_generate:
  assumes "\<forall>i \<in> set is. \<forall>j \<in> set ps. (fst i = fst j) = (snd i = snd j)"
  shows "random_outer is ps src k conns
     = (conns @ fst (generate_random (map snd is) (map snd ps) src k),
        snd (generate_random (map snd is) (map snd ps) src k))"
  using assms
proof (induction "is" arbitrary: k conns)
  case Nil
  show ?case by simp
next
  case (Cons i "is")
  from Cons.prems have a: "\<forall>j \<in> set ps. (fst i = fst j) = (snd i = snd j)" by simp
  from Cons.prems have b: "\<forall>i \<in> set is. \<forall>j \<in> set ps. (fst i = fst j) = (snd i = snd j)" by simp
  show ?case
    by (simp add: random_inner_initiates[OF a] Cons.IH[OF b] split: prod.split)
qed

lemma first_success_in:
  "first_success cs src k = (Some j, k') \<Longrightarrow> j \<in> set cs"
  by (induction cs arbitrary: k) (auto split: if_splits)

lemma initiates_cases:
  "fst (initiates i ps src k) = []
   \<or> (\<exists>j. fst (initiates i ps src k) = [(i, j)] \<and> j \<in> set ps \<and> j \<noteq> i)"
proof (cases "first_success (candidates i ps) src k")
  case (Pair r k')
  show ?thesis
  proof (cases r)
    case None
    with Pair show ?thesis by (simp add: initiates_def)
  next
    case (Some j)
    with Pair have "j \<in> set (candidates i ps)" by (auto dest: first_success_in)
    then have "j \<in> set ps \<and> j \<noteq> i" by (simp add: candidates_def)
    with Pair Some show ?thesis by (simp add: initiates_def)
  qed
qed

lemma generate_random_Cons:
  "fst (generate_random (i # is) ps src k)
     = fst (initiates i ps src k) @ fst (generate_random is ps src (snd (initiates i ps src k)))"
  by (simp split: prod.split)

lemma generate_random_length:
  "length (fst (generate_random is ps src k)) \<le> length is"
proof (induction "is" arbitrary: k)
  case Nil
  show ?case by simp
next
  case (Cons i "is")
  have "length (fst (initiates i ps src k)) \<le> 1"
    using initiates_cases[of i ps src k] by auto
  moreover have "length (fst (generate_random is ps src (snd (initiates i ps src k)))) \<le> length is"
    by (rule Cons.IH)
  ultimately show ?case unfolding generate_random_Cons by simp
qed

lemma generate_random_pairs:
  "c \<in> set (fst (generate_random is ps src k))
     \<Longrightarrow> fst c \<in> set is \<and> snd c \<in> set ps \<and> fst c \<noteq> snd c"
proof (induction "is" arbitrary: k)
  case Nil
  then show ?case by simp
next
  case (Cons i "is")
  from Cons.prems have "c \<in> set (fst (initiates i ps src k))
      \<or> c \<in> set (fst (generate_random is ps src (snd (initiates i ps src k))))"
    unfolding generate_random_Cons by simp
  then show ?case
  proof
    assume "c \<in> set (fst (initiates i ps src k))"
    with initiates_cases[of i ps src k] show ?thesis by auto
  next
    assume "c \<in> set (fst (generate_random is ps src (snd (initiates i ps src k))))"
    from Cons.IH[OF this] show ?thesis by simp
  qed
qed

lemma generate_random_count:
  "length (filter (\<lambda>c. fst c = p) (fst (generate_random is ps src k)))
     \<le> length (filter (\<lambda>x. x = p) is)"
proof (induction "is" arbitrary: k)
  case Nil
  show ?case by simp
next
  case (Cons i "is")
  have a: "length (filter (\<lambda>c. fst c = p) (fst (initiates i ps src k))) \<le> (if i = p then 1 else 0)"
    using initiates_cases[of i ps src k] by auto
  have b: "length (filter (\<lambda>c. fst c = p) (fst (generate_random is ps src (snd (initiates i ps src k)))))
      \<le> length (filter (\<lambda>x. x = p) is)"
    by (rule Cons.IH)
  from a b show ?case unfolding generate_random_Cons by (simp split: if_splits)
qed

lemma distinct_count_le_1: "distinct xs \<Longrightarrow> length (filter (\<lambda>x. x = p) xs) \<le> 1"
proof (induction xs)
  case Nil
  show ?case by simp
next
  case (Cons x xs)
  show ?case
  proof (cases "x = p")
    case True
    with Cons.prems have "p \<notin> set xs" by simp
    then have "filter (\<lambda>x. x = p) xs = []" by (auto simp: filter_empty_conv)
    with True show ?thesis by simp
  next
    case False
    with Cons show ?thesis by simp
  qed
qed



lemma generate_random_alternating:
  "generate_random [''A'', ''B'', ''C''] [''A'', ''B'', ''C''] (\<lambda>n. n mod 2) 0
     = ([(''A'', ''C''), (''B'', ''C''), (''C'', ''B'')], 6)"
  by code_simp

text \<open>
  Claim C5, as stated: for every sequence of people and every random source,
  \<^verbatim>\<open>create_connections_random\<close> scans, for each person, the candidates distinct from that
  person, emits the connection of the first successful flip and stops, so that each person
  initiates at most one connection. It fails on a sequence in which a person occurs twice.
  With \<^verbatim>\<open>["A", "B", "A"]\<close>, the two \<^verbatim>\<open>"A"\<close> one object, and every flip a success, A
  initiates two connections. With two equal strings that are two objects the test
  \<^verbatim>\<open>i is j\<close> lets each be a candidate of the other, and the connection of A with A is
  emitted twice.
\<close>

theorem create_connections_random_repeated_person:
  "create_connections_random
      \<lparr>people = [(0, ''A''), (1, ''B''), (0, ''A'')], connections = [], graph = MultiGraph\<rparr>
      (\<lambda>_. 1) 0
    = (\<lparr>people = [(0, ''A''), (1, ''B''), (0, ''A'')],
         connections = [(''A'', ''B''), (''B'', ''A''), (''A'', ''B'')], graph = MultiGraph\<rparr>, 3)
   \<and> length (filter (\<lambda>c. fst c = ''A'') [(''A'', ''B''), (''B'', ''A''), (''A'', ''B'')]) = 2
   \<and> create_connections_random
        \<lparr>people = [(0, ''A''), (1, ''A'')], connections = [], graph = MultiGraph\<rparr> (\<lambda>_. 1) 0
      = (\<lparr>people = [(0, ''A''), (1, ''A'')],
           connections = [(''A'', ''A''), (''A'', ''A'')], graph = MultiGraph\<rparr>, 2)"
  by code_simp

text \<open>
  Claim C5, amended: for every sequence of people and every random source,
  \<^verbatim>\<open>create_connections_random\<close> appends at most as many connections as there are people in
  the sequence. When no person occurs twice in the sequence, it appends what the generator
  described above produces: for each person in turn, the candidates other than the person
  are scanned in sequence order with one flip each, the first success emits the connection
  and ends the scan, and no success emits nothing; every connection then joins two
  different people of the sequence, and each person initiates at most one.
\<close>

theorem create_connections_random_refines:
  "(\<exists>new. connections (fst (create_connections_random self src k)) = connections self @ new
          \<and> length new \<le> length (people self))
   \<and> (heap_consistent (people self) \<and> distinct (map snd (people self)) \<longrightarrow>
        create_connections_random self src k =
          (self\<lparr>connections := connections self
              @ fst (generate_random (map snd (people self)) (map snd (people self)) src k)\<rparr>,
           snd (generate_random (map snd (people self)) (map snd (people self)) src k))
        \<and> (\<forall>c \<in> set (fst (generate_random (map snd (people self)) (map snd (people self)) src k)).
              fst c \<in> snd ` set (people self) \<and> snd c \<in> snd ` set (people self)
              \<and> fst c \<noteq> snd c)
        \<and> (\<forall>p. length (filter (\<lambda>c. fst c = p)
                (fst (generate_random (map snd (people self)) (map snd (people self)) src k)))
              \<le> 1))"
proof (intro conjI impI)
  have "connections (fst (create_connections_random self src k))
      = fst (random_outer (people self) (people self) src k (connections self))"
    by (simp add: create_connections_random_def split: prod.split)
  with random_outer_appends[of "people self" "people self" src k "connections self"]
  show "\<exists>new. connections (fst (create_connections_random self src k)) = connections self @ new
          \<and> length new \<le> length (people self)"
    by simp
next
  assume "heap_consistent (people self) \<and> distinct (map snd (people self))"
  then have h: "heap_consistent (people self)" and d: "distinct (map snd (people self))"
    by simp_all
  have same: "\<forall>i \<in> set (people self). \<forall>j \<in> set (people self).
      (fst i = fst j) = (snd i = snd j)"
    using same_object_iff[OF h d] by blast
  show "create_connections_random self src k =
          (self\<lparr>connections := connections self
              @ fst (generate_random (map snd (people self)) (map snd (people self)) src k)\<rparr>,
           snd (generate_random (map snd (people self)) (map snd (people self)) src k))"
    by (simp add: create_connections_random_def random_outer_generate[OF same])
  show "\<forall>c \<in> set (fst (generate_random (map snd (people self)) (map snd (people self)) src k)).
              fst c \<in> snd ` set (people self) \<and> snd c \<in> snd ` set (people self)
              \<and> fst c \<noteq> snd c"
  proof
    fix c assume "c \<in> set (fst (generate_random (map snd (people self)) (map snd (people self)) src k))"
    from generate_random_pairs[OF this]
    show "fst c \<in> snd ` set (people self) \<and> snd c \<in> snd ` set (people self) \<and> fst c \<noteq> snd c"
      by simp
  qed
  show "\<forall>p. length (filter (\<lambda>c. fst c = p)
                (fst (generate_random (map snd (people self)) (map snd (people self)) src k)))
              \<le> 1"
  proof
    fix p
    have "length (filter (\<lambda>c. fst c = p)
            (fst (generate_random (map snd (people self)) (map snd (people self)) src k)))
        \<le> length (filter (\<lambda>x. x = p) (map snd (people self)))"
      by (rule generate_random_count)
    also have "\<dots> \<le> 1" by (rule distinct_count_le_1[OF d])
    finally show "length (filter (\<lambda>c. fst c = p)
        (fst (generate_random (map snd (people self)) (map snd (people self)) src k))) \<le> 1" .
  qed
qed

theorem create_connections_random_refines_witness:
  "heap_consistent [(0, ''A''), (1, ''B''), (2, ''C'')]
   \<and> distinct (map snd [(0 :: nat, ''A''), (1, ''B''), (2, ''C'')])
   \<and> create_connections_random
        \<lparr>people = [(0, ''A''), (1, ''B''), (2, ''C'')], connections = [], graph = MultiGraph\<rparr>
        (\<lambda>n. n mod 2) 0
      = (\<lparr>people = [(0, ''A''), (1, ''B''), (2, ''C'')],
           connections = [(''A'', ''C''), (''B'', ''C''), (''C'', ''B'')], graph = MultiGraph\<rparr>, 6)
   \<and> length (filter (\<lambda>c. fst c = ''A'')
        (fst (generate_random [''A'', ''B'', ''C''] [''A'', ''B'', ''C''] (\<lambda>n. n mod 2) 0))) \<le> 1"
proof -
  let ?X = "\<lparr>people = [(0, ''A''), (1, ''B''), (2, ''C'')], connections = [],
              graph = MultiGraph\<rparr>"
  have h: "heap_consistent [(0, ''A''), (1, ''B''), (2, ''C'')]"
    by (simp add: heap_consistent_def)
  have d: "distinct (map snd [(0 :: nat, ''A''), (1, ''B''), (2, ''C'')])" by simp
  have p: "people ?X = [(0, ''A''), (1, ''B''), (2, ''C'')]" "connections ?X = []" by simp_all
  have m: "map snd [(0 :: nat, ''A''), (1, ''B''), (2, ''C'')] = [''A'', ''B'', ''C'']" by simp
  note t = create_connections_random_refines [of ?X "\<lambda>n. n mod 2" 0]
  from t h d have "create_connections_random ?X (\<lambda>n. n mod 2) 0 =
     (?X\<lparr>connections := connections ?X
          @ fst (generate_random (map snd (people ?X)) (map snd (people ?X)) (\<lambda>n. n mod 2) 0)\<rparr>,
      snd (generate_random (map snd (people ?X)) (map snd (people ?X)) (\<lambda>n. n mod 2) 0))"
    unfolding p by blast
  then have a: "create_connections_random ?X (\<lambda>n. n mod 2) 0
      = (\<lparr>people = [(0, ''A''), (1, ''B''), (2, ''C'')],
           connections = [(''A'', ''C''), (''B'', ''C''), (''C'', ''B'')], graph = MultiGraph\<rparr>, 6)"
    unfolding p m generate_random_alternating by simp
  from t h d have "\<forall>q. length (filter (\<lambda>c. fst c = q)
        (fst (generate_random (map snd (people ?X)) (map snd (people ?X)) (\<lambda>n. n mod 2) 0))) \<le> 1"
    unfolding p by blast
  then have c: "length (filter (\<lambda>c. fst c = ''A'')
        (fst (generate_random [''A'', ''B'', ''C''] [''A'', ''B'', ''C''] (\<lambda>n. n mod 2) 0))) \<le> 1"
    unfolding p m by (rule spec)
  from h d a c show ?thesis by (intro conjI)
qed

section \<open>Three people in a row\<close>

lemma scenario_degrees: "degree (graph (fst (init [(0, ''A''), (1, ''B''), (2, ''C'')] (Some [(''A'', ''B''), (''B'', ''C'')]) None (\<lambda>_. 0) 0))) ''A'' = 1
  \<and> degree (graph (fst (init [(0, ''A''), (1, ''B''), (2, ''C'')] (Some [(''A'', ''B''), (''B'', ''C'')]) None (\<lambda>_. 0) 0))) ''B'' = 2
  \<and> degree (graph (fst (init [(0, ''A''), (1, ''B''), (2, ''C'')] (Some [(''A'', ''B''), (''B'', ''C'')]) None (\<lambda>_. 0) 0))) ''C'' = 1"
  by code_simp

lemma scenario_friends: "get_friends (fst (init [(0, ''A''), (1, ''B''), (2, ''C'')] (Some [(''A'', ''B''), (''B'', ''C'')]) None (\<lambda>_. 0) 0))
   = [(''A'', {''B''}), (''B'', {''A'', ''C''}), (''C'', {''B''})]"
  by code_simp

lemma scenario_friends_of_friends: "get_friends_of_friends (fst (init [(0, ''A''), (1, ''B''), (2, ''C'')] (Some [(''A'', ''B''), (''B'', ''C'')]) None (\<lambda>_. 0) 0))
   = [(''A'', {''C''}), (''B'', {}), (''C'', {''A''})]"
  by code_simp

lemma scenario_popular: "get_most_popular (fst (init [(0, ''A''), (1, ''B''), (2, ''C'')] (Some [(''A'', ''B''), (''B'', ''C'')]) None (\<lambda>_. 0) 0)) = Inr {''B''}
  \<and> get_least_popular (fst (init [(0, ''A''), (1, ''B''), (2, ''C'')] (Some [(''A'', ''B''), (''B'', ''C'')]) None (\<lambda>_. 0) 0)) = Inr {''A'', ''C''}"
  by code_simp

lemma scenario_average: "get_average (fst (init [(0, ''A''), (1, ''B''), (2, ''C'')] (Some [(''A'', ''B''), (''B'', ''C'')]) None (\<lambda>_. 0) 0)) None
     = Inr (PyFloat (nearest_double 4 3))
  \<and> truediv 4 3 = Inr (nearest_double 4 3)
  \<and> nearest_double 4 3 = 6004799503160661 / 4503599627370496
  \<and> get_average (fst (init [(0, ''A''), (1, ''B''), (2, ''C'')] (Some [(''A'', ''B''), (''B'', ''C'')]) None (\<lambda>_. 0) 0)) (Some ''floor'') = Inr (PyInt 1)
  \<and> get_average (fst (init [(0, ''A''), (1, ''B''), (2, ''C'')] (Some [(''A'', ''B''), (''B'', ''C'')]) None (\<lambda>_. 0) 0)) (Some ''ceiling'') = Inr (PyInt 2)"
  by code_simp

text \<open>
  Claim C1: in the graph built from the people \<^verbatim>\<open>["A","B","C"]\<close> and the connections
  \<^verbatim>\<open>[("A","B"),("B","C")]\<close> the degrees of A, B and C are 1, 2 and 1; \<^verbatim>\<open>get_friends\<close>
  returns \<^verbatim>\<open>{A:{B}, B:{A,C}, C:{B}}\<close> and \<^verbatim>\<open>get_friends_of_friends\<close> returns
  \<^verbatim>\<open>{A:{C}, B:{}, C:{A}}\<close>; the most popular are \<^verbatim>\<open>{B}\<close>, the least popular \<^verbatim>\<open>{A,C}\<close>;
  \<^verbatim>\<open>get_average\<close> returns \<^verbatim>\<open>4/3\<close> with no governor, which in Python is the double nearest
  to four thirds (\<^verbatim>\<open>1.3333333333333333\<close>), 1 under \<^verbatim>\<open>"floor"\<close> and 2 under \<^verbatim>\<open>"ceiling"\<close>.
\<close>

theorem scenario_three_people:
  "degree (graph (fst (init [(0, ''A''), (1, ''B''), (2, ''C'')] (Some [(''A'', ''B''), (''B'', ''C'')]) None (\<lambda>_. 0) 0))) ''A'' = 1 \<and> degree (graph (fst (init [(0, ''A''), (1, ''B''), (2, ''C'')] (Some [(''A'', ''B''), (''B'', ''C'')]) None (\<lambda>_. 0) 0))) ''B'' = 2 \<and> degree (graph (fst (init [(0, ''A''), (1, ''B''), (2, ''C'')] (Some [(''A'', ''B''), (''B'', ''C'')]) None (\<lambda>_. 0) 0))) ''C'' = 1
   \<and> get_friends (fst (init [(0, ''A''), (1, ''B''), (2, ''C'')] (Some [(''A'', ''B''), (''B'', ''C'')]) None (\<lambda>_. 0) 0)) = [(''A'', {''B''}), (''B'', {''A'', ''C''}), (''C'', {''B''})]
   \<and> get_friends_of_friends (fst (init [(0, ''A''), (1, ''B''), (2, ''C'')] (Some [(''A'', ''B''), (''B'', ''C'')]) None (\<lambda>_. 0) 0)) = [(''A'', {''C''}), (''B'', {}), (''C'', {''A''})]
   \<and> get_most_popular (fst (init [(0, ''A''), (1, ''B''), (2, ''C'')] (Some [(''A'', ''B''), (''B'', ''C'')]) None (\<lambda>_. 0) 0)) = Inr {''B''}
   \<and> get_least_popular (fst (init [(0, ''A''), (1, ''B''), (2, ''C'')] (Some [(''A'', ''B''), (''B'', ''C'')]) None (\<lambda>_. 0) 0)) = Inr {''A'', ''C''}
   \<and> get_average (fst (init [(0, ''A''), (1, ''B''), (2, ''C'')] (Some [(''A'', ''B''), (''B'', ''C'')]) None (\<lambda>_. 0) 0)) None = Inr (PyFloat (nearest_double 4 3))
   \<and> truediv 4 3 = Inr (nearest_double 4 3)
   \<and> nearest_double 4 3 = 6004799503160661 / 4503599627370496
   \<and> get_average (fst (init [(0, ''A''), (1, ''B''), (2, ''C'')] (Some [(''A'', ''B''), (''B'', ''C'')]) None (\<lambda>_. 0) 0)) (Some ''floor'') = Inr (PyInt 1)
   \<and> get_average (fst (init [(0, ''A''), (1, ''B''), (2, ''C'')] (Some [(''A'', ''B''), (''B'', ''C'')]) None (\<lambda>_. 0) 0)) (Some ''ceiling'') = Inr (PyInt 2)"
  using scenario_degrees scenario_friends scenario_friends_of_friends scenario_popular
    scenario_average
  by (intro conjI) (simp_all only: simp_thms)

end
